theory Spec2Isabelle
  imports Complex_Main "HOL-Library.Multiset"
begin

section \<open>Route-to-n flow accumulation (flow\_accum\_to\_n.py)\<close>

text \<open>
  A shallow embedding of \<^verbatim>\<open>landlab/components/flow_accum/flow_accum_to_n.py\<close>.

  \<^item> The receiver table \<open>r\<close> is a list of rows of integers (node IDs, \<open>-1\<close> for an unused
    slot); the proportion table \<open>p\<close> is a list of rows of rationals (the floating point
    numbers of the source, taken exactly).
  \<^item> Donor counts, offsets, write cursors and donor IDs are natural numbers: the source
    only ever stores counts, sums of counts and values of \<open>range(np)\<close> in them.
  \<^item> Every exception numpy raises is a value \<open>Inl e\<close>; Python's negative indices wrap
    around as in the source.
  \<^item> The \<open>while\<close> loop of \<open>construct__stack\<close> may run forever, so it is a partial
    function into \<open>option\<close>: \<open>None\<close> is "does not return".
  \<^item> Python identifiers that start with an underscore lose it
    (\<open>_make_delta_array_to_n\<close> is \<open>make_delta_array_to_n\<close>).
\<close>

subsection \<open>numpy primitives\<close>

datatype error = ValueError | IndexError | AssertionError

text \<open>\<open>a[i]\<close> for a Python integer \<open>i\<close>: negative indices count from the end.\<close>

definition np_index :: "nat \<Rightarrow> int \<Rightarrow> nat option" where
  "np_index n i =
     (if 0 \<le> i \<and> i < int n then Some (nat i)
      else if - int n \<le> i \<and> i < 0 then Some (nat (int n + i))
      else None)"

text \<open>\<open>t[i, v]\<close> for non-negative \<open>i\<close> and \<open>v\<close>.\<close>

definition get2 :: "'a list list \<Rightarrow> nat \<Rightarrow> nat \<Rightarrow> error + 'a" where
  "get2 t i v = (if i < length t \<and> v < length (t ! i) then Inr (t ! i ! v) else Inl IndexError)"

text \<open>\<open>t.shape[1]\<close> of a two-dimensional array given as a list of rows.\<close>

definition ncols :: "'a list list \<Rightarrow> nat" where
  "ncols t = (case t of [] \<Rightarrow> 0 | row # _ \<Rightarrow> length row)"

definition shape :: "'a list list \<Rightarrow> nat \<times> nat" where
  "shape t = (length t, ncols t)"

text \<open>\<open>numpy.amax\<close>: the maximum of all entries; a zero-size array raises.\<close>

definition amax :: "int list \<Rightarrow> error + int" where
  "amax xs = (case xs of [] \<Rightarrow> Inl ValueError | x # ys \<Rightarrow> Inr (fold max ys x))"

text \<open>\<open>xs[ps > 0]\<close>: boolean-mask selection; the mask must have the length of \<open>xs\<close>.\<close>

definition mask_filter :: "int list \<Rightarrow> rat list \<Rightarrow> error + int list" where
  "mask_filter xs ps =
     (if length xs \<noteq> length ps then Inl IndexError
      else Inr (map fst (filter (\<lambda>xq. snd xq > 0) (zip xs ps))))"

text \<open>\<open>numpy.bincount\<close>: negative entries raise; the result has \<open>max + 1\<close> bins
  (none for an empty input).\<close>

definition bincount :: "int list \<Rightarrow> error + nat list" where
  "bincount xs =
     (if \<exists>x \<in> set xs. x < 0 then Inl ValueError
      else case xs of [] \<Rightarrow> Inr []
           | x # ys \<Rightarrow> Inr (map (\<lambda>v. count_list xs (int v)) [0..<nat (fold max ys x + 1)]))"

text \<open>The number of elements of the slice \<open>a[:stop]\<close> of an array of length \<open>n\<close>.\<close>

definition slice_stop :: "nat \<Rightarrow> int \<Rightarrow> nat" where
  "slice_stop n stop = (if stop < 0 then nat (int n + stop) else min n (nat stop))"

text \<open>\<open>a[:stop] = src\<close>: the source must have the length of the slice, or length one
  (it is then broadcast); anything else raises.\<close>

definition assign_prefix :: "nat list \<Rightarrow> int \<Rightarrow> nat list \<Rightarrow> error + nat list" where
  "assign_prefix a stop src =
     (let k = slice_stop (length a) stop in
      if length src = k then Inr (src @ drop k a)
      else if length src = 1 then Inr (replicate k (hd src) @ drop k a)
      else Inl ValueError)"

text \<open>\<open>a[lo:hi]\<close> for non-negative bounds: never raises, clamps.\<close>

definition slice :: "'a list \<Rightarrow> nat \<Rightarrow> nat \<Rightarrow> 'a list" where
  "slice a lo hi = take (hi - lo) (drop lo a)"

fun cumsum_from :: "nat \<Rightarrow> nat list \<Rightarrow> nat list" where
  "cumsum_from acc [] = []"
| "cumsum_from acc (x # xs) = (acc + x) # cumsum_from (acc + x) xs"

definition cumsum :: "nat list \<Rightarrow> nat list" where
  "cumsum xs = cumsum_from 0 xs"

text \<open>Running a loop body that may raise over the values of the loop variable.\<close>

fun fold_err :: "('a \<Rightarrow> 's \<Rightarrow> error + 's) \<Rightarrow> 'a list \<Rightarrow> 's \<Rightarrow> error + 's" where
  "fold_err f [] st = Inr st"
| "fold_err f (x # xs) st = (case f x st of Inl e \<Rightarrow> Inl e | Inr st' \<Rightarrow> fold_err f xs st')"

subsection \<open>Donor counts, offsets and donor lists\<close>

definition make_number_of_donors_array_to_n :: "int list list \<Rightarrow> rat list list \<Rightarrow> error + nat list" where
  "make_number_of_donors_array_to_n r p =
     (let nd = replicate (length r) 0 in
      case amax (concat r) of Inl e \<Rightarrow> Inl e | Inr max_index \<Rightarrow>
     (case mask_filter (concat r) (concat p) of Inl e \<Rightarrow> Inl e | Inr r_filter_flat \<Rightarrow>
     (case bincount r_filter_flat of Inl e \<Rightarrow> Inl e | Inr bc \<Rightarrow>
      assign_prefix nd (max_index + 1) bc)))"

definition make_delta_array_to_n :: "nat list \<Rightarrow> nat list" where
  "make_delta_array_to_n nd =
     (let nt = sum_list nd in
      rev (map (\<lambda>c. nt - c) (cumsum (rev nd))) @ [nt])"

text \<open>
  The state of the double loop of \<open>_make_array_of_donors_to_n\<close>: the cursors \<open>w\<close>, the
  array \<open>D\<close>, and a history of the writes so far (the history is not in the source; it
  records the receiver \<open>ri\<close> and the index \<open>ind\<close> at every \<open>D[ind] = i\<close>, most
  recent first).
\<close>

type_synonym donors_state = "nat list \<times> nat list \<times> (nat \<times> nat) list"

definition donors_body ::
  "int list list \<Rightarrow> rat list list \<Rightarrow> nat list \<Rightarrow> nat \<times> nat \<Rightarrow> donors_state \<Rightarrow> error + donors_state" where
  "donors_body r p delta vi st =
     (case vi of (v, i) \<Rightarrow> (case st of (w, D, hist) \<Rightarrow>
     (case get2 r i v of Inl e \<Rightarrow> Inl e | Inr ri \<Rightarrow>
     (case get2 p i v of Inl e \<Rightarrow> Inl e | Inr pr \<Rightarrow>
      if pr > 0 then
        (case np_index (length delta) ri of None \<Rightarrow> Inl IndexError | Some a \<Rightarrow>
        (case np_index (length w) ri of None \<Rightarrow> Inl IndexError | Some b \<Rightarrow>
         let ind = delta ! a + w ! b in
         if ind < length D then Inr (w[b := w ! b + 1], D[ind := i], (b, ind) # hist)
         else Inl IndexError))
      else Inr (w, D, hist)))))"

text \<open>The pairs \<open>(v, i)\<close> in the order of \<open>for v in range(q): for i in range(np)\<close>.\<close>

definition loop_pairs :: "nat \<Rightarrow> nat \<Rightarrow> (nat \<times> nat) list" where
  "loop_pairs q np = concat (map (\<lambda>v. map (\<lambda>i. (v, i)) [0..<np]) [0..<q])"

definition donors_loop ::
  "int list list \<Rightarrow> rat list list \<Rightarrow> nat list \<Rightarrow> error + donors_state" where
  "donors_loop r p delta =
     (let np = length r; q = ncols r in
      if delta = [] then Inl IndexError
      else let nt = last delta in
        fold_err (donors_body r p delta) (loop_pairs q np) (replicate np 0, replicate nt 0, []))"

definition make_array_of_donors_to_n ::
  "int list list \<Rightarrow> rat list list \<Rightarrow> nat list \<Rightarrow> error + nat list" where
  "make_array_of_donors_to_n r p delta =
     (case donors_loop r p delta of Inl e \<Rightarrow> Inl e | Inr (w, D, hist) \<Rightarrow> Inr D)"

subsection \<open>The drainage stack\<close>

text \<open>The union of \<open>D[delta[node_i]:delta[node_i+1]]\<close> over the nodes of a set.\<close>

definition donors_of :: "nat list \<Rightarrow> nat list \<Rightarrow> nat set \<Rightarrow> error + nat set" where
  "donors_of delta D base =
     (if \<exists>node_i \<in> base. length delta \<le> Suc node_i then Inl IndexError
      else Inr (\<Union>node_i \<in> base. set (slice D (delta ! node_i) (delta ! Suc node_i))))"

text \<open>\<open>visit_time[list(nodes)] = i\<close>.\<close>

definition set_times :: "int list \<Rightarrow> nat set \<Rightarrow> int \<Rightarrow> error + int list" where
  "set_times visit_time nodes i =
     (if \<exists>n \<in> nodes. length visit_time \<le> n then Inl IndexError
      else Inr (map (\<lambda>k. if k \<in> nodes then i else visit_time ! k) [0..<length visit_time]))"

partial_function (option) stack_loop ::
  "nat list \<Rightarrow> nat list \<Rightarrow> nat set \<Rightarrow> nat set \<Rightarrow> int \<Rightarrow> int list \<Rightarrow> (error + int list) option" where
  "stack_loop delta D base upstream i visit_time =
     (if upstream = {} then Some (Inr visit_time)
      else case donors_of delta D base of Inl e \<Rightarrow> Some (Inl e) | Inr upstream' \<Rightarrow>
        (let visited = base - upstream' in
         case set_times visit_time visited (i + 1) of Inl e \<Rightarrow> Some (Inl e) | Inr visit_time' \<Rightarrow>
           stack_loop delta D ((base - visited) \<union> upstream') upstream' (i + 1) visit_time'))"

declare stack_loop.simps [code]

text \<open>The visit times \<open>construct__stack\<close> has computed when it reaches its last line.\<close>

definition visit_times :: "nat list \<Rightarrow> nat list \<Rightarrow> nat list \<Rightarrow> (error + int list) option" where
  "visit_times delta D l =
     (let base = set l in
      if delta = [] then Some (Inl ValueError)
      else let visit_time = replicate (length delta - 1) (- 1) in
        case donors_of delta D base of Inl e \<Rightarrow> Some (Inl e) | Inr upstream \<Rightarrow>
       (case set_times visit_time base 0 of Inl e \<Rightarrow> Some (Inl e) | Inr visit_time' \<Rightarrow>
          stack_loop delta D (upstream - base) upstream 0 visit_time'))"

text \<open>
  \<open>numpy.argsort\<close> returns indices that sort the array. Which of two equal entries comes
  first depends on the sorting algorithm; \<open>is_argsort\<close> accepts every such answer, and
  \<open>argsort\<close> is the stable one (what numpy's default returns on short arrays, which it
  sorts by insertion).
\<close>

definition is_argsort :: "int list \<Rightarrow> nat list \<Rightarrow> bool" where
  "is_argsort a s \<longleftrightarrow> mset s = mset [0..<length a] \<and> sorted (map (\<lambda>k. a ! k) s)"

definition argsort :: "int list \<Rightarrow> nat list" where
  "argsort a = sort_key (\<lambda>k. a ! k) [0..<length a]"

definition construct__stack :: "nat list \<Rightarrow> nat list \<Rightarrow> nat list \<Rightarrow> (error + nat list) option" where
  "construct__stack delta D l =
     (case visit_times delta D l of None \<Rightarrow> None
      | Some (Inl e) \<Rightarrow> Some (Inl e)
      | Some (Inr visit_time) \<Rightarrow> Some (Inr (argsort visit_time)))"

text \<open>\<open>numpy.where(node_id == receiver_nodes[:,0])[0]\<close>.\<close>

definition baselevel_nodes :: "int list list \<Rightarrow> error + nat list" where
  "baselevel_nodes r =
     (if r \<noteq> [] \<and> ncols r = 0 then Inl IndexError
      else Inr (filter (\<lambda>i. r ! i ! 0 = int i) [0..<length r]))"

text \<open>Everything \<open>make_ordered_node_array_to_n\<close> builds before the traversal.\<close>

definition donor_graph :: "int list list \<Rightarrow> rat list list \<Rightarrow> error + (nat list \<times> nat list \<times> nat list)" where
  "donor_graph r p =
     (case baselevel_nodes r of Inl e \<Rightarrow> Inl e | Inr l \<Rightarrow>
     (case make_number_of_donors_array_to_n r p of Inl e \<Rightarrow> Inl e | Inr nd \<Rightarrow>
      let delta = make_delta_array_to_n nd in
     (case make_array_of_donors_to_n r p delta of Inl e \<Rightarrow> Inl e | Inr D \<Rightarrow>
      Inr (delta, D, l))))"

text \<open>The visit times inside \<open>make_ordered_node_array_to_n\<close>.\<close>

definition node_visit_times :: "int list list \<Rightarrow> rat list list \<Rightarrow> (error + int list) option" where
  "node_visit_times r p =
     (case donor_graph r p of Inl e \<Rightarrow> Some (Inl e)
      | Inr (delta, D, l) \<Rightarrow> visit_times delta D l)"

definition make_ordered_node_array_to_n :: "int list list \<Rightarrow> rat list list \<Rightarrow> (error + nat list) option" where
  "make_ordered_node_array_to_n r p =
     (case donor_graph r p of Inl e \<Rightarrow> Some (Inl e)
      | Inr (delta, D, l) \<Rightarrow> construct__stack delta D l)"

subsection \<open>Accumulation\<close>

text \<open>An argument that is a float or an ndarray.\<close>

datatype field = Scalar rat | Array "rat list"

text \<open>\<open>x * y\<close> with numpy's broadcasting.\<close>

definition broadcast_mult :: "field \<Rightarrow> field \<Rightarrow> error + field" where
  "broadcast_mult a b =
     (case a of
        Scalar x \<Rightarrow> (case b of Scalar y \<Rightarrow> Inr (Scalar (x * y))
                     | Array ys \<Rightarrow> Inr (Array (map (\<lambda>y. x * y) ys)))
      | Array xs \<Rightarrow> (case b of Scalar y \<Rightarrow> Inr (Array (map (\<lambda>x. x * y) xs))
                     | Array ys \<Rightarrow>
                         if length xs = length ys then Inr (Array (map (\<lambda>xy. fst xy * snd xy) (zip xs ys)))
                         else if length xs = 1 then Inr (Array (map (\<lambda>y. hd xs * y) ys))
                         else if length ys = 1 then Inr (Array (map (\<lambda>x. x * hd ys) xs))
                         else Inl ValueError))"

text \<open>\<open>numpy.zeros(n) + x\<close>.\<close>

definition zeros_plus :: "nat \<Rightarrow> field \<Rightarrow> error + rat list" where
  "zeros_plus n x =
     (case x of Scalar c \<Rightarrow> Inr (replicate n (0 + c))
      | Array xs \<Rightarrow>
          if length xs = n then Inr (map (\<lambda>c. 0 + c) xs)
          else if length xs = 1 then Inr (replicate n (0 + hd xs))
          else if n = 1 then Inr (map (\<lambda>c. 0 + c) xs)
          else Inl ValueError)"

text \<open>\<open>a[nodes] = 0\<close>.\<close>

definition zero_at :: "rat list \<Rightarrow> nat list \<Rightarrow> error + rat list" where
  "zero_at a nodes =
     (if \<exists>n \<in> set nodes. length a \<le> n then Inl IndexError
      else Inr (map (\<lambda>k. if k \<in> set nodes then 0 else a ! k) [0..<length a]))"

text \<open>\<open>a[recvr] += proportion * a[donor]\<close>.\<close>

definition add_to :: "rat list \<Rightarrow> int \<Rightarrow> rat \<Rightarrow> nat \<Rightarrow> error + rat list" where
  "add_to a recvr proportion donor =
     (case np_index (length a) recvr of None \<Rightarrow> Inl IndexError
      | Some k \<Rightarrow> if donor < length a then Inr (a[k := a ! k + proportion * a ! donor])
                  else Inl IndexError)"

text \<open>The body of \<open>for v in range(q)\<close>, for the donor of the enclosing iteration.\<close>

definition accum_slot ::
  "int list list \<Rightarrow> rat list list \<Rightarrow> nat \<Rightarrow> nat \<Rightarrow> rat list \<times> rat list \<Rightarrow> error + rat list \<times> rat list" where
  "accum_slot r p donor v st =
     (case st of (drainage_area, discharge) \<Rightarrow>
     (case get2 r donor v of Inl e \<Rightarrow> Inl e | Inr recvr \<Rightarrow>
     (case get2 p donor v of Inl e \<Rightarrow> Inl e | Inr proportion \<Rightarrow>
      if proportion > 0 then
        if int donor \<noteq> recvr then
          (case add_to drainage_area recvr proportion donor of Inl e \<Rightarrow> Inl e | Inr drainage_area' \<Rightarrow>
          (case add_to discharge recvr proportion donor of Inl e \<Rightarrow> Inl e | Inr discharge' \<Rightarrow>
             Inr (drainage_area', discharge')))
        else Inr st
      else Inr st)))"

text \<open>The body of \<open>for i in range(np-1, -1, -1)\<close>.\<close>

definition accum_node ::
  "int list list \<Rightarrow> rat list list \<Rightarrow> nat list \<Rightarrow> nat \<Rightarrow> rat list \<times> rat list \<Rightarrow> error + rat list \<times> rat list" where
  "accum_node r p s i st =
     (if i < length s then fold_err (accum_slot r p (s ! i)) [0..<ncols r] st
      else Inl IndexError)"

text \<open>The two arrays before the loop: seeded, and zeroed at the boundary nodes.\<close>

definition seed_arrays :: "nat \<Rightarrow> field \<Rightarrow> field \<Rightarrow> nat list option \<Rightarrow> error + rat list \<times> rat list" where
  "seed_arrays np node_cell_area runoff boundary_nodes =
     (case zeros_plus np node_cell_area of Inl e \<Rightarrow> Inl e | Inr drainage_area \<Rightarrow>
     (case broadcast_mult node_cell_area runoff of Inl e \<Rightarrow> Inl e | Inr ar \<Rightarrow>
     (case zeros_plus np ar of Inl e \<Rightarrow> Inl e | Inr discharge \<Rightarrow>
     (case boundary_nodes of None \<Rightarrow> Inr (drainage_area, discharge)
      | Some bn \<Rightarrow>
         (case zero_at drainage_area bn of Inl e \<Rightarrow> Inl e | Inr drainage_area' \<Rightarrow>
         (case zero_at discharge bn of Inl e \<Rightarrow> Inl e | Inr discharge' \<Rightarrow>
            Inr (drainage_area', discharge')))))))"

definition find_drainage_area_and_discharge_to_n ::
  "nat list \<Rightarrow> int list list \<Rightarrow> rat list list \<Rightarrow> field \<Rightarrow> field \<Rightarrow> nat list option
     \<Rightarrow> error + rat list \<times> rat list" where
  "find_drainage_area_and_discharge_to_n s r p node_cell_area runoff boundary_nodes =
     (let np = length r in
      case seed_arrays np node_cell_area runoff boundary_nodes of Inl e \<Rightarrow> Inl e
      | Inr st \<Rightarrow> fold_err (accum_node r p s) (rev [0..<np]) st)"


subsection \<open>The reference input of the doctests\<close>

definition r_ref :: "int list list" where
  "r_ref = [[1, 2], [4, 5], [1, 5], [6, 2], [4, - 1], [4, - 1], [5, 7], [4, 5], [6, 7], [7, 8]]"

definition p_ref :: "rat list list" where
  "p_ref = [[6 / 10, 4 / 10], [85 / 100, 15 / 100], [65 / 100, 35 / 100], [9 / 10, 1 / 10],
            [1, 0], [1, 0], [75 / 100, 25 / 100], [55 / 100, 45 / 100], [8 / 10, 2 / 10],
            [95 / 100, 5 / 100]]"

definition area_ref :: "rat list" where
  "area_ref = [1, 2575 / 1000, 15 / 10, 1, 10, 52465 / 10000, 274 / 100, 2845 / 1000, 105 / 100, 1]"

subsection \<open>Small networks\<close>

text \<open>A chain: node 2 drains to node 1, node 1 to the base-level node 0.\<close>

definition r_chain :: "int list list" where "r_chain = [[0], [0], [1]]"
definition p_chain :: "rat list list" where "p_chain = [[1], [1], [1]]"

text \<open>Node 0 drains to node 1, which has no receiver; there is no base-level node.\<close>

definition r_sink :: "int list list" where "r_sink = [[1], [- 1]]"
definition p_sink :: "rat list list" where "p_sink = [[1], [0]]"

text \<open>Two base-level nodes; node 0 sends half of its flow to node 1.\<close>

definition r_two :: "int list list" where "r_two = [[0, 1], [1, - 1]]"
definition p_two :: "rat list list" where "p_two = [[1 / 2, 1 / 2], [1, 0]]"

text \<open>Nodes 0 and 1 drain to the base-level node 0; node 2 holds its own ID in its first
  slot and sends half of its flow to node 1.\<close>

definition r_leak :: "int list list" where "r_leak = [[0, - 1], [0, - 1], [2, 1]]"
definition p_leak :: "rat list list" where "p_leak = [[1, 0], [1, 0], [1 / 2, 1 / 2]]"

text \<open>Node 2 drains to node 0, which has no receiver; node 1 holds its own ID with
  proportion 0.\<close>

definition r_inert :: "int list list" where "r_inert = [[- 1], [1], [0]]"
definition p_inert :: "rat list list" where "p_inert = [[0], [0], [1]]"

subsection \<open>The flow network of a pair of tables\<close>

text \<open>A two-dimensional array of shape \<open>(n, q)\<close>.\<close>

definition table :: "nat \<Rightarrow> nat \<Rightarrow> 'a list list \<Rightarrow> bool" where
  "table n q t \<longleftrightarrow> length t = n \<and> (\<forall>row \<in> set t. length row = q)"

text \<open>
  The edges (donor, receiver entry) carried by the slots \<open>(v, i)\<close> of a list of slots: one
  for every slot with proportion \<open>> 0\<close>, in the order of the list.
\<close>

definition slot_edges :: "int list list \<Rightarrow> rat list list \<Rightarrow> (nat \<times> nat) list \<Rightarrow> (nat \<times> int) list" where
  "slot_edges r p ps =
     map (\<lambda>vi. (snd vi, r ! snd vi ! fst vi)) (filter (\<lambda>vi. 0 < p ! snd vi ! fst vi) ps)"

definition edge_list :: "int list list \<Rightarrow> rat list list \<Rightarrow> (nat \<times> int) list" where
  "edge_list r p = slot_edges r p (loop_pairs (ncols r) (length r))"

definition donors_in :: "(nat \<times> int) list \<Rightarrow> nat \<Rightarrow> nat list" where
  "donors_in es x = map fst (filter (\<lambda>e. snd e = int x) es)"

text \<open>The donors of node \<open>x\<close>, one per (node, slot) pair with proportion \<open>> 0\<close> whose
  receiver entry is \<open>x\<close>; their number; and the array of these numbers.\<close>

definition donor_list :: "int list list \<Rightarrow> rat list list \<Rightarrow> nat \<Rightarrow> nat list" where
  "donor_list r p x = donors_in (edge_list r p) x"

definition donor_count :: "int list list \<Rightarrow> rat list list \<Rightarrow> nat \<Rightarrow> nat" where
  "donor_count r p x = length (donor_list r p x)"

definition donor_counts :: "int list list \<Rightarrow> rat list list \<Rightarrow> nat list" where
  "donor_counts r p = map (donor_count r p) [0..<length r]"

text \<open>Every receiver entry of positive proportion is a node ID.\<close>

definition in_range :: "int list list \<Rightarrow> rat list list \<Rightarrow> bool" where
  "in_range r p \<longleftrightarrow> (\<forall>e \<in> set (edge_list r p). 0 \<le> snd e \<and> snd e < int (length r))"

text \<open>The positive-proportion edges, as pairs (donor, receiver).\<close>

definition edges :: "int list list \<Rightarrow> rat list list \<Rightarrow> (nat \<times> nat) set" where
  "edges r p = (\<lambda>e. (fst e, nat (snd e))) ` set (edge_list r p)"

text \<open>The base-level nodes: those whose first receiver slot holds their own ID.\<close>

definition baselevel :: "int list list \<Rightarrow> nat set" where
  "baselevel r = set (filter (\<lambda>i. r ! i ! 0 = int i) [0..<length r])"

text \<open>An offset table for the counts \<open>c\<close> of \<open>n\<close> nodes.\<close>

definition offsets :: "(nat \<Rightarrow> nat) \<Rightarrow> nat \<Rightarrow> nat list \<Rightarrow> bool" where
  "offsets c n delta \<longleftrightarrow>
     length delta = Suc n \<and> delta ! 0 = 0 \<and> (\<forall>x < n. delta ! Suc x = delta ! x + c x)"

text \<open>
  The tables of shape \<open>(np, q)\<close> with receivers in range, and an offset table for
  their donor counts.
\<close>

definition csr_setting :: "int list list \<Rightarrow> rat list list \<Rightarrow> nat list \<Rightarrow> bool" where
  "csr_setting r p delta \<longleftrightarrow>
     table (length r) (ncols r) r \<and> table (length r) (ncols r) p \<and> in_range r p
     \<and> offsets (donor_count r p) (length r) delta"

text \<open>
  The state of the double loop after the slots \<open>done\<close>: the cursor of \<open>x\<close> counts the
  donors of \<open>x\<close> met so far, they fill \<open>D\<close> from \<open>delta[x]\<close> on in the order met, and the
  history holds exactly the indices below the cursors, each once.
\<close>

definition donors_inv ::
  "int list list \<Rightarrow> rat list list \<Rightarrow> nat list \<Rightarrow> (nat \<times> nat) list \<Rightarrow> donors_state \<Rightarrow> bool" where
  "donors_inv r p delta done st \<longleftrightarrow>
     (case st of (w, D, hist) \<Rightarrow>
        length w = length r \<and> length D = delta ! length r
        \<and> (\<forall>x < length r. w ! x = length (donors_in (slot_edges r p done) x))
        \<and> (\<forall>x < length r. \<forall>j < w ! x. D ! (delta ! x + j) = donors_in (slot_edges r p done) x ! j)
        \<and> (\<forall>bi \<in> set hist. fst bi < length r \<and> delta ! fst bi \<le> snd bi
               \<and> snd bi < delta ! fst bi + w ! fst bi)
        \<and> distinct (map snd hist)
        \<and> (\<forall>x < length r. \<forall>j < w ! x. delta ! x + j \<in> snd ` set hist))"

subsection \<open>The traversal, on the donor graph\<close>

text \<open>\<open>delta\<close> and \<open>D\<close> list, for each of \<open>n\<close> nodes, its donors in the graph \<open>E\<close> of
  (donor, receiver) pairs.\<close>

definition csr_graph :: "nat \<Rightarrow> nat list \<Rightarrow> nat list \<Rightarrow> (nat \<times> nat) set \<Rightarrow> bool" where
  "csr_graph n delta D E \<longleftrightarrow>
     length delta = Suc n \<and> E \<subseteq> {0..<n} \<times> {0..<n}
     \<and> (\<forall>x < n. set (slice D (delta ! x) (delta ! Suc x)) = {u. (u, x) \<in> E})"

text \<open>The nodes with a path of edges, possibly empty, down to a node of \<open>B\<close>.\<close>

definition drains_to :: "(nat \<times> nat) set \<Rightarrow> nat set \<Rightarrow> nat set" where
  "drains_to E B = {v. \<exists>b \<in> B. (v, b) \<in> E\<^sup>*}"

text \<open>
  What holds whenever the loop of \<open>construct__stack\<close> tests its condition: the frontier
  \<open>base\<close> is part of \<open>upstream\<close>; visit times are at most the round counter; the nodes
  visited so far are the base-level nodes and nodes that drain to them; and a donor of a
  visited node has a later visit time or is still in the frontier.
\<close>

definition traversal_inv ::
  "nat \<Rightarrow> (nat \<times> nat) set \<Rightarrow> nat set \<Rightarrow> nat set \<Rightarrow> nat set \<Rightarrow> int \<Rightarrow> int list \<Rightarrow> bool" where
  "traversal_inv n E B base upstream i visit_time \<longleftrightarrow>
     base \<subseteq> upstream \<and> upstream \<subseteq> {0..<n} \<and> base \<subseteq> drains_to E B
     \<and> length visit_time = n \<and> 0 \<le> i
     \<and> (\<forall>v < n. visit_time ! v \<le> i \<and> - 1 \<le> visit_time ! v)
     \<and> (\<forall>v < n. v \<in> B \<longrightarrow> 0 \<le> visit_time ! v)
     \<and> (\<forall>v < n. 0 \<le> visit_time ! v \<longrightarrow> v \<in> drains_to E B)
     \<and> (\<forall>e \<in> E. fst e \<noteq> snd e \<and> 0 \<le> visit_time ! snd e
            \<longrightarrow> visit_time ! snd e < visit_time ! fst e \<or> fst e \<in> base)"

text \<open>The nodes of \<open>B\<close> send no flow to another node.\<close>

definition terminal :: "(nat \<times> nat) set \<Rightarrow> nat set \<Rightarrow> bool" where
  "terminal E B \<longleftrightarrow> (\<forall>e \<in> E. fst e \<in> B \<longrightarrow> snd e = fst e)"

text \<open>The graph apart from the self-loops of the nodes of \<open>B\<close>.\<close>

definition without_base_loops :: "(nat \<times> nat) set \<Rightarrow> nat set \<Rightarrow> (nat \<times> nat) set" where
  "without_base_loops E B = Set.filter (\<lambda>e. \<not> (fst e = snd e \<and> fst e \<in> B)) E"

text \<open>The nodes of \<open>X\<close> and the nodes upstream of them.\<close>

definition upstream_of :: "(nat \<times> nat) set \<Rightarrow> nat set \<Rightarrow> nat set" where
  "upstream_of G X = {u. \<exists>x \<in> X. (u, x) \<in> G\<^sup>*}"

subsection \<open>Invariants of the accumulation loop\<close>

text \<open>The state of the accumulation loop dominates a non-negative lower bound.\<close>

definition area_above :: "rat list \<Rightarrow> rat list \<times> rat list \<Rightarrow> bool" where
  "area_above lo st \<longleftrightarrow> length (fst st) = length lo \<and> (\<forall>k < length lo. 0 \<le> lo ! k \<and> lo ! k \<le> fst st ! k)"

text \<open>The sum of the positive proportions of a row.\<close>

definition positive_sum :: "rat list \<Rightarrow> rat" where
  "positive_sum row = sum_list (filter (\<lambda>q. 0 < q) row)"

text \<open>
  The area that has not been passed on yet: the area of the nodes that are still to be
  processed (those outside \<open>S\<close>) and of the base-level nodes.
\<close>

definition retained :: "nat set \<Rightarrow> nat set \<Rightarrow> rat list \<Rightarrow> rat" where
  "retained B S a = (\<Sum>v = 0..<length a. if v \<in> S \<and> v \<notin> B then 0 else a ! v)"

text \<open>An order of all nodes in which every receiver stands before its donors.\<close>

definition downstream_first :: "(nat \<times> nat) set \<Rightarrow> nat \<Rightarrow> nat list \<Rightarrow> bool" where
  "downstream_first E n s \<longleftrightarrow>
     mset s = mset [0..<n]
     \<and> (\<forall>i < n. \<forall>j < n. (s ! j, s ! i) \<in> E \<and> s ! j \<noteq> s ! i \<longrightarrow> i < j)"

section \<open>Properties\<close>

subsection \<open>Lengths of the intermediate arrays\<close>

lemma slice_stop_le: "slice_stop n stop \<le> n"
  by (auto simp: slice_stop_def)



lemma length_cumsum_from: "length (cumsum_from acc xs) = length xs"
  by (induction xs arbitrary: acc) auto

lemma length_make_delta: "length (make_delta_array_to_n nd) = Suc (length nd)"
  by (simp add: make_delta_array_to_n_def Let_def cumsum_def length_cumsum_from)






subsection \<open>The reference input, evaluated\<close>



lemma ref_donors:
  "make_array_of_donors_to_n r_ref p_ref [0, 0, 2, 4, 4, 8, 12, 14, 17, 18, 18]
     = Inr [0, 2, 0, 3, 1, 4, 5, 7, 6, 1, 2, 7, 3, 8, 9, 6, 8, 9]"
  by code_simp





lemma ref_area_given_order:
  "find_drainage_area_and_discharge_to_n [4, 5, 1, 7, 2, 6, 0, 8, 3, 9] r_ref p_ref
     (Scalar 1) (Scalar 1) None = Inr (area_ref, area_ref)"
  by code_simp


subsection \<open>The donor-count stage\<close>

lemma entry_in_zip_concat:
  "map length p = map length r \<Longrightarrow> i < length r \<Longrightarrow> v < length (r ! i)
     \<Longrightarrow> (r ! i ! v, p ! i ! v) \<in> set (zip (concat r) (concat p))"
proof (induction r arbitrary: p i)
  case Nil
  then show ?case by simp
next
  case (Cons row r)
  then obtain prow p' where p: "p = prow # p'" and len: "length prow = length row"
    and rest: "map length p' = map length r"
    by (cases p) auto
  show ?case
  proof (cases i)
    case 0
    with Cons.prems len have "(row ! v, prow ! v) \<in> set (zip row prow)"
      by (auto simp: set_zip)
    with 0 p len show ?thesis by (simp add: zip_append)
  next
    case (Suc j)
    with Cons.prems have "(r ! j ! v, p' ! j ! v) \<in> set (zip (concat r) (concat p'))"
      by (intro Cons.IH [OF rest]) auto
    with Suc p len show ?thesis by (simp add: zip_append)
  qed
qed

lemma length_concat_eq: "map length p = map length r \<Longrightarrow> length (concat p) = length (concat r)"
  by (simp add: length_concat)

lemma fold_max_Max: "fold max ys (y :: int) = Max (set (y # ys))"
  by (rule Max.set_eq_fold [symmetric])

lemma bincount_length:
  "bincount xs = Inr bc \<Longrightarrow> x \<in> set xs \<Longrightarrow> nat (x + 1) \<le> length bc"
proof -
  assume bc: "bincount xs = Inr bc" and x: "x \<in> set xs"
  then obtain y ys where xs: "xs = y # ys" by (cases xs) auto
  from x have "x \<le> Max (set xs)" by simp
  with bc xs show ?thesis
    by (auto simp: bincount_def fold_max_Max split: if_splits)
qed

lemma bincount_negative: "x \<in> set xs \<Longrightarrow> x < 0 \<Longrightarrow> bincount xs = Inl ValueError"
  by (auto simp: bincount_def)

subsection \<open>The order is a permutation\<close>



subsection \<open>The reference scenario\<close>


subsection \<open>Inert entries\<close>

text \<open>
  Claim C5, on the code. The tables \<open>[[0,-1],[0,-1]]\<close> and \<open>[[0,1],[0,-1]]\<close> with the
  proportions \<open>[[1,0],[1,0]]\<close> agree on every entry of positive proportion, yet the donor
  counts returned are \<open>[2,0]\<close> for the first and \<open>[2,2]\<close> for the second (node 1 has no
  donor); and \<open>[[1,2],[1,-1],[1,-1]]\<close> with \<open>[[1,0],[1,0],[1,0]]\<close> raises although its only
  entry other than 1 and -1 carries proportion 0.
\<close>

theorem inert_entry_changes_donor_counts:
  "make_number_of_donors_array_to_n [[0, - 1], [0, - 1]] [[1, 0], [1, 0]] = Inr [2, 0]
   \<and> make_number_of_donors_array_to_n [[0, 1], [0, - 1]] [[1, 0], [1, 0]] = Inr [2, 2]
   \<and> make_number_of_donors_array_to_n [[1, 2], [1, - 1], [1, - 1]] [[1, 0], [1, 0], [1, 0]]
       = Inl ValueError"
  by code_simp

subsection \<open>Out-of-range receivers\<close>

text \<open>
  Claim C6. If the tables have rows of equal lengths and some entry of positive
  proportion holds a receiver ID below 0 or not below the number of nodes, then
  \<open>_make_number_of_donors_array_to_n\<close> raises (a ValueError): it returns no donor counts.
\<close>

theorem out_of_range_receiver_fails:
  assumes i: "i < length r" and v: "v < length (r ! i)"
    and shape: "map length p = map length r"
    and pos: "p ! i ! v > 0"
    and out: "r ! i ! v < 0 \<or> int (length r) \<le> r ! i ! v"
  shows "make_number_of_donors_array_to_n r p = Inl ValueError"
proof -
  let ?x = "r ! i ! v"
  let ?flat = "map fst (filter (\<lambda>xq. snd xq > 0) (zip (concat r) (concat p)))"
  from entry_in_zip_concat [OF shape i v] have mem: "(?x, p ! i ! v) \<in> set (zip (concat r) (concat p))" .
  have ne: "concat r \<noteq> []"
  proof
    assume "concat r = []"
    with mem show False by simp
  qed
  then obtain m where am: "amax (concat r) = Inr m"
    by (cases "concat r") (auto simp: amax_def)
  have mf: "mask_filter (concat r) (concat p) = Inr ?flat"
    using length_concat_eq [OF shape] by (simp add: mask_filter_def)
  from mem pos have xin: "?x \<in> set ?flat" by force
  show ?thesis
  proof (cases "bincount ?flat")
    case (Inl e)
    then have "e = ValueError" by (auto simp: bincount_def split: if_splits list.splits)
    with Inl am mf show ?thesis by (simp add: make_number_of_donors_array_to_n_def)
  next
    case (Inr bc)
    with xin out have ge: "int (length r) \<le> ?x"
      using bincount_negative [OF xin] by fastforce
    from bincount_length [OF Inr xin] ge have big: "length r < length bc" by linarith
    from i big have "length bc \<noteq> 1" by linarith
    moreover from big slice_stop_le [of "length r" "m + 1"]
    have "length bc \<noteq> slice_stop (length r) (m + 1)" by linarith
    ultimately have "assign_prefix (replicate (length r) 0) (m + 1) bc = Inl ValueError"
      by (simp add: assign_prefix_def Let_def)
    with Inr am mf show ?thesis by (simp add: make_number_of_donors_array_to_n_def)
  qed
qed

theorem out_of_range_receiver_fails_witness:
  "(1::nat) < length [[0], [2::int]] \<and> (0::nat) < length ([[0], [2::int]] ! 1)
   \<and> [[1], [1::rat]] ! 1 ! 0 > 0 \<and> int (length [[0], [2::int]]) \<le> [[0], [2]] ! 1 ! 0
   \<and> make_number_of_donors_array_to_n [[0], [2]] [[1], [1]] = Inl ValueError"
  using out_of_range_receiver_fails [of 1 "[[0], [2]]" 0 "[[1], [1]]"] by simp
subsection \<open>The offset table\<close>

lemma cumsum_from_nth:
  "j < length xs \<Longrightarrow> cumsum_from acc xs ! j = acc + sum_list (take (Suc j) xs)"
proof (induction xs arbitrary: acc j)
  case Nil
  then show ?case by simp
next
  case (Cons x xs)
  show ?case
  proof (cases j)
    case 0
    then show ?thesis by simp
  next
    case (Suc k)
    with Cons.prems have "k < length xs" by simp
    from Cons.IH [OF this, of "acc + x"] Suc show ?thesis by simp
  qed
qed

lemma sum_list_take_drop: "sum_list (take k xs) + sum_list (drop k xs) = sum_list (xs :: nat list)"
  by (metis append_take_drop_id sum_list_append)

lemma make_delta_nth:
  assumes "k \<le> length nd"
  shows "make_delta_array_to_n nd ! k = sum_list (take k nd)"
proof (cases "k = length nd")
  case True
  then show ?thesis
    by (simp add: make_delta_array_to_n_def Let_def nth_append cumsum_def length_cumsum_from)
next
  case False
  with assms have k: "k < length nd" by simp
  let ?n = "length nd"
  let ?nt = "sum_list nd"
  let ?M = "map (\<lambda>c. ?nt - c) (cumsum (rev nd))"
  have lenM: "length ?M = ?n" by (simp add: cumsum_def length_cumsum_from)
  have j: "?n - Suc k < length (rev nd)" using k by simp
  have "make_delta_array_to_n nd ! k = rev ?M ! k"
    using k lenM by (simp add: make_delta_array_to_n_def Let_def nth_append)
  also have "\<dots> = ?M ! (?n - Suc k)"
    using k lenM by (simp add: rev_nth)
  also have "\<dots> = ?nt - cumsum (rev nd) ! (?n - Suc k)"
    using k by (simp add: cumsum_def length_cumsum_from)
  also have "cumsum (rev nd) ! (?n - Suc k) = sum_list (take (Suc (?n - Suc k)) (rev nd))"
    using cumsum_from_nth [OF j, of 0] by (simp add: cumsum_def)
  also have "Suc (?n - Suc k) = ?n - k" using k by simp
  also have "take (?n - k) (rev nd) = rev (drop k nd)"
    by (simp add: rev_drop rev_take) 
  also have "?nt - sum_list (rev (drop k nd)) = sum_list (take k nd)"
    using sum_list_take_drop [of k nd] by (simp add: sum_list_rev)
  finally show ?thesis .
qed

lemma make_delta_offsets: "offsets (\<lambda>x. nd ! x) (length nd) (make_delta_array_to_n nd)"
  unfolding offsets_def
proof (intro conjI allI impI)
  show "length (make_delta_array_to_n nd) = Suc (length nd)" by (rule length_make_delta)
  show "make_delta_array_to_n nd ! 0 = 0" by (simp add: make_delta_nth)
next
  fix x assume "x < length nd"
  then show "make_delta_array_to_n nd ! Suc x = make_delta_array_to_n nd ! x + nd ! x"
    by (simp add: make_delta_nth take_Suc_conv_app_nth)
qed

lemma offsets_mono:
  assumes "offsets c n delta"
  shows "j \<le> k \<Longrightarrow> k \<le> n \<Longrightarrow> delta ! j \<le> delta ! k"
proof (induction k)
  case 0
  then show ?case by simp
next
  case (Suc k)
  show ?case
  proof (cases "j = Suc k")
    case True
    then show ?thesis by simp
  next
    case False
    with Suc.prems have "j \<le> k" "k < n" by auto
    with Suc.IH assms show ?thesis by (auto simp: offsets_def)
  qed
qed


lemma offsets_separate:
  assumes off: "offsets c n delta" and x: "x < n" and y: "y < n" and ne: "x \<noteq> y"
    and a: "delta ! x \<le> a" "a < delta ! Suc x" and b: "delta ! y \<le> b" "b < delta ! Suc y"
  shows "a \<noteq> b"
proof (cases "x < y")
  case True
  then have "delta ! Suc x \<le> delta ! y"
    using offsets_mono [OF off, of "Suc x" y] y by simp
  with a b show ?thesis by simp
next
  case False
  with ne have "y < x" by simp
  then have "delta ! Suc y \<le> delta ! x"
    using offsets_mono [OF off, of "Suc y" x] x by simp
  with a b show ?thesis by simp
qed

subsection \<open>The donor list builder\<close>

lemma loop_pairs_mem: "(v, i) \<in> set (loop_pairs q np) \<longleftrightarrow> v < q \<and> i < np"
  by (force simp: loop_pairs_def)

lemma slot_edges_append: "slot_edges r p (xs @ ys) = slot_edges r p xs @ slot_edges r p ys"
  by (simp add: slot_edges_def)

lemma slot_edges_single:
  "slot_edges r p [(v, i)] = (if 0 < p ! i ! v then [(i, r ! i ! v)] else [])"
  by (simp add: slot_edges_def)

lemma donors_in_append: "donors_in (xs @ ys) x = donors_in xs x @ donors_in ys x"
  by (simp add: donors_in_def)

lemma donors_in_single: "donors_in [(i, y)] x = (if y = int x then [i] else [])"
  by (simp add: donors_in_def)

lemma table_get2: "table n q t \<Longrightarrow> i < n \<Longrightarrow> v < q \<Longrightarrow> get2 t i v = Inr (t ! i ! v)"
  by (auto simp: table_def get2_def)

lemma np_index_nat: "0 \<le> y \<Longrightarrow> y < int n \<Longrightarrow> np_index n y = Some (nat y)"
  by (simp add: np_index_def)

text \<open>A slot that carries no flow leaves the state as it is.\<close>

lemma donors_body_skip:
  assumes "csr_setting r p delta" and "v < ncols r" and "i < length r" and "\<not> 0 < p ! i ! v"
  shows "donors_body r p delta (v, i) st = Inr st"
proof -
  obtain w D hist where st: "st = (w, D, hist)" by (cases st)
  from assms have "get2 r i v = Inr (r ! i ! v)" "get2 p i v = Inr (p ! i ! v)"
    by (auto simp: csr_setting_def intro: table_get2)
  with assms(4) st show ?thesis by (simp add: donors_body_def)
qed

lemma donors_inv_skip:
  assumes "donors_inv r p delta done st" and "\<not> 0 < p ! i ! v"
  shows "donors_inv r p delta (done @ [(v, i)]) st"
  using assms by (simp add: donors_inv_def slot_edges_append slot_edges_single)


lemma donor_count_split:
  assumes "loop_pairs (ncols r) (length r) = done @ vi # rest"
  shows "donor_count r p z = length (donors_in (slot_edges r p done) z)
           + length (donors_in (slot_edges r p [vi]) z) + length (donors_in (slot_edges r p rest) z)"
proof -
  have "edge_list r p = slot_edges r p done @ slot_edges r p [vi] @ slot_edges r p rest"
    using assms slot_edges_append [of r p "done" "vi # rest"] slot_edges_append [of r p "[vi]" rest]
    by (simp add: edge_list_def)
  then show ?thesis by (simp add: donor_count_def donor_list_def donors_in_append)
qed

text \<open>A slot that carries flow to \<open>x\<close> writes at \<open>delta[x] + w[x]\<close>, in bounds, and moves the cursor.\<close>

lemma donors_body_write:
  assumes setting: "csr_setting r p delta"
    and split: "loop_pairs (ncols r) (length r) = done @ (v, i) # rest"
    and inv: "donors_inv r p delta done (w, D, hist)"
    and pos: "0 < p ! i ! v"
  shows "\<exists>st'. donors_body r p delta (v, i) (w, D, hist) = Inr st'
           \<and> donors_inv r p delta (done @ [(v, i)]) st'"
proof -
  let ?N = "length r"
  let ?es = "slot_edges r p done"
  let ?y = "r ! i ! v"
  from setting have tr: "table ?N (ncols r) r" and tp: "table ?N (ncols r) p"
    and rng: "in_range r p" and off: "offsets (donor_count r p) ?N delta"
    by (auto simp: csr_setting_def)
  from split have "(v, i) \<in> set (loop_pairs (ncols r) ?N)" by simp
  then have v: "v < ncols r" and i: "i < ?N" by (auto simp: loop_pairs_mem)
  have "edge_list r p = ?es @ slot_edges r p [(v, i)] @ slot_edges r p rest"
    using split slot_edges_append [of r p "done" "(v, i) # rest"]
      slot_edges_append [of r p "[(v, i)]" rest]
    by (simp add: edge_list_def)
  with pos have "(i, ?y) \<in> set (edge_list r p)" by (simp add: slot_edges_single)
  with rng have y: "0 \<le> ?y" "?y < int ?N" by (auto simp: in_range_def)
  define x where "x = nat ?y"
  from y have x: "x < ?N" and xy: "?y = int x" by (auto simp: x_def)
  from inv have lw: "length w = ?N" and lD: "length D = delta ! ?N"
    and cnt: "\<And>z. z < ?N \<Longrightarrow> w ! z = length (donors_in ?es z)"
    and fill: "\<And>z j. z < ?N \<Longrightarrow> j < w ! z \<Longrightarrow> D ! (delta ! z + j) = donors_in ?es z ! j"
    and hst: "\<And>b k. (b, k) \<in> set hist \<Longrightarrow> b < ?N \<and> delta ! b \<le> k \<and> k < delta ! b + w ! b"
    and dist: "distinct (map snd hist)"
    and cov: "\<And>z j. z < ?N \<Longrightarrow> j < w ! z \<Longrightarrow> delta ! z + j \<in> snd ` set hist"
    by (auto simp: donors_inv_def)
  from off have ld: "length delta = Suc ?N"
    and nxt: "\<And>z. z < ?N \<Longrightarrow> delta ! Suc z = delta ! z + donor_count r p z"
    by (auto simp: offsets_def)
  have room: "\<And>z. z < ?N \<Longrightarrow> w ! z \<le> donor_count r p z"
    using donor_count_split [OF split] cnt by simp
  have "donor_count r p x = w ! x + 1 + length (donors_in (slot_edges r p rest) x)"
    using donor_count_split [OF split, of p x] cnt [OF x] pos xy
    by (simp add: slot_edges_single donors_in_single)
  then have roomx: "w ! x < donor_count r p x" by simp
  define ind where "ind = delta ! x + w ! x"
  have ind_hi: "ind < delta ! Suc x" using roomx nxt [OF x] by (simp add: ind_def)
  have "delta ! Suc x \<le> delta ! ?N" using offsets_mono [OF off, of "Suc x" ?N] x by simp
  with ind_hi lD have ind_D: "ind < length D" by simp
  have sep: "k \<noteq> ind" if z: "z < ?N" and k: "delta ! z \<le> k" "k < delta ! z + w ! z" for z k
  proof (cases "z = x")
    case True
    with k show ?thesis by (simp add: ind_def)
  next
    case False
    from k room [OF z] nxt [OF z] have "k < delta ! Suc z" by simp
    from offsets_separate [OF off z x False k(1) this _ ind_hi] show ?thesis
      by (simp add: ind_def)
  qed
  let ?w' = "w[x := w ! x + 1]"
  let ?D' = "D[ind := i]"
  let ?h' = "(x, ind) # hist"
  have body: "donors_body r p delta (v, i) (w, D, hist) = Inr (?w', ?D', ?h')"
    using table_get2 [OF tr i v] table_get2 [OF tp i v] pos y ld lw ind_D
    by (simp add: donors_body_def np_index_nat x_def ind_def Let_def)
  have es': "slot_edges r p (done @ [(v, i)]) = ?es @ [(i, int x)]"
    using pos xy by (simp add: slot_edges_append slot_edges_single)
  have din: "donors_in (?es @ [(i, int x)]) z = donors_in ?es z @ (if z = x then [i] else [])" for z
    by (simp add: donors_in_append donors_in_single)
  have old: "j < w ! z" if "z < ?N" "j < ?w' ! z" "\<not> (z = x \<and> j = w ! x)" for z j
    using that lw by (cases "z = x") auto
  have c1: "\<forall>z < ?N. ?w' ! z = length (donors_in (?es @ [(i, int x)]) z)"
    using cnt lw by (auto simp: din nth_list_update)
  have c2: "\<forall>z < ?N. \<forall>j < ?w' ! z. ?D' ! (delta ! z + j) = donors_in (?es @ [(i, int x)]) z ! j"
  proof (intro allI impI)
    fix z j assume z: "z < ?N" and j: "j < ?w' ! z"
    show "?D' ! (delta ! z + j) = donors_in (?es @ [(i, int x)]) z ! j"
    proof (cases "z = x \<and> j = w ! x")
      case True
      with ind_D cnt [OF x] show ?thesis by (simp add: din ind_def nth_append)
    next
      case False
      with j z have j': "j < w ! z" by (intro old)
      from sep [OF z, of "delta ! z + j"] j' have "delta ! z + j \<noteq> ind" by simp
      with fill [OF z j'] j' cnt [OF z] show ?thesis by (simp add: din nth_append)
    qed
  qed
  have c3: "\<forall>bi \<in> set ?h'. fst bi < ?N \<and> delta ! fst bi \<le> snd bi
              \<and> snd bi < delta ! fst bi + ?w' ! fst bi"
  proof
    fix bi assume bi: "bi \<in> set ?h'"
    obtain b k where bk: "bi = (b, k)" by (cases bi)
    show "fst bi < ?N \<and> delta ! fst bi \<le> snd bi \<and> snd bi < delta ! fst bi + ?w' ! fst bi"
    proof (cases "bi = (x, ind)")
      case True
      with x lw show ?thesis by (simp add: ind_def)
    next
      case False
      with bi bk have "(b, k) \<in> set hist" by auto
      from hst [OF this] lw bk show ?thesis by (cases "b = x") auto
    qed
  qed
  have c4: "distinct (map snd ?h')"
  proof -
    have "ind \<notin> snd ` set hist"
    proof
      assume "ind \<in> snd ` set hist"
      then obtain b where "(b, ind) \<in> set hist" by force
      from hst [OF this] sep [of b ind] show False by simp
    qed
    with dist show ?thesis by simp
  qed
  have c5: "\<forall>z < ?N. \<forall>j < ?w' ! z. delta ! z + j \<in> snd ` set ?h'"
  proof (intro allI impI)
    fix z j assume z: "z < ?N" and j: "j < ?w' ! z"
    show "delta ! z + j \<in> snd ` set ?h'"
    proof (cases "z = x \<and> j = w ! x")
      case True
      then show ?thesis by (simp add: ind_def)
    next
      case False
      with j z have "j < w ! z" by (intro old)
      from cov [OF z this] show ?thesis by auto
    qed
  qed
  have c0: "length ?w' = ?N" "length ?D' = delta ! ?N" using lw lD by simp_all
  have "donors_inv r p delta (done @ [(v, i)]) (?w', ?D', ?h')"
    unfolding donors_inv_def es' prod.case by (intro conjI c0 c1 c2 c3 c4 c5)
  with body show ?thesis by blast
qed


lemma donors_fold:
  assumes "csr_setting r p delta"
  shows "loop_pairs (ncols r) (length r) = done @ rest \<Longrightarrow> donors_inv r p delta done st
    \<Longrightarrow> \<exists>st'. fold_err (donors_body r p delta) rest st = Inr st'
           \<and> donors_inv r p delta (done @ rest) st'"
proof (induction rest arbitrary: "done" st)
  case Nil
  then show ?case by simp
next
  case (Cons vi rest)
  obtain v i where vi: "vi = (v, i)" by (cases vi)
  obtain w D hist where st: "st = (w, D, hist)" by (cases st)
  from Cons.prems(1) vi have "(v, i) \<in> set (loop_pairs (ncols r) (length r))" by simp
  then have v: "v < ncols r" and i: "i < length r" by (auto simp: loop_pairs_mem)
  have "\<exists>st1. donors_body r p delta (v, i) st = Inr st1 \<and> donors_inv r p delta (done @ [(v, i)]) st1"
  proof (cases "0 < p ! i ! v")
    case True
    from donors_body_write [OF assms _ _ True, of "done" rest w D hist] Cons.prems vi st
    show ?thesis by simp
  next
    case False
    from donors_body_skip [OF assms v i False] donors_inv_skip [OF Cons.prems(2) False]
    show ?thesis by simp
  qed
  then obtain st1 where b: "donors_body r p delta (v, i) st = Inr st1"
    and inv1: "donors_inv r p delta (done @ [(v, i)]) st1" by blast
  from Cons.prems(1) vi have "loop_pairs (ncols r) (length r) = (done @ [(v, i)]) @ rest" by simp
  from Cons.IH [OF this inv1] b vi show ?case by simp
qed

lemma donors_loop_inv:
  assumes "csr_setting r p delta"
  shows "\<exists>st. donors_loop r p delta = Inr st
           \<and> donors_inv r p delta (loop_pairs (ncols r) (length r)) st"
proof -
  from assms have ld: "length delta = Suc (length r)" by (simp add: csr_setting_def offsets_def)
  then have ne: "delta \<noteq> []" by auto
  with ld have last: "last delta = delta ! length r" by (simp add: last_conv_nth)
  have init: "donors_inv r p delta [] (replicate (length r) 0, replicate (last delta) 0, [])"
    by (simp add: donors_inv_def slot_edges_def donors_in_def last)
  from donors_fold [OF assms, of "[]" "loop_pairs (ncols r) (length r)", OF _ init] ne
  show ?thesis by (simp add: donors_loop_def Let_def)
qed

text \<open>At the end the donors of \<open>x\<close> are \<open>D[delta[x]:delta[x+1]]\<close>.\<close>

lemma donors_inv_slices:
  assumes setting: "csr_setting r p delta"
    and inv: "donors_inv r p delta (loop_pairs (ncols r) (length r)) (w, D, hist)"
    and x: "x < length r"
  shows "slice D (delta ! x) (delta ! Suc x) = donor_list r p x"
proof -
  from setting have off: "offsets (donor_count r p) (length r) delta" by (simp add: csr_setting_def)
  from inv x have wx: "w ! x = donor_count r p x"
    and lD: "length D = delta ! length r"
    and fill: "\<And>j. j < w ! x \<Longrightarrow> D ! (delta ! x + j) = donor_list r p x ! j"
    by (auto simp: donors_inv_def donor_count_def donor_list_def edge_list_def)
  from off x have nxt: "delta ! Suc x = delta ! x + donor_count r p x" by (simp add: offsets_def)
  have "delta ! Suc x \<le> delta ! length r" using offsets_mono [OF off, of "Suc x" "length r"] x by simp
  with lD nxt have fits: "delta ! x + donor_count r p x \<le> length D" by simp
  show ?thesis
  proof (rule nth_equalityI)
    show "length (slice D (delta ! x) (delta ! Suc x)) = length (donor_list r p x)"
      using fits nxt by (simp add: slice_def donor_count_def)
  next
    fix j assume "j < length (slice D (delta ! x) (delta ! Suc x))"
    then have j: "j < donor_count r p x" using nxt by (simp add: slice_def)
    with fits fill [of j] wx nxt show "slice D (delta ! x) (delta ! Suc x) ! j = donor_list r p x ! j"
      by (simp add: slice_def)
  qed
qed


lemma donor_counts_setting:
  assumes "table (length r) (ncols r) r" and "table (length r) (ncols r) p" and "in_range r p"
  shows "csr_setting r p (make_delta_array_to_n (donor_counts r p))"
proof -
  have "offsets (\<lambda>x. donor_counts r p ! x) (length (donor_counts r p))
          (make_delta_array_to_n (donor_counts r p))"
    by (rule make_delta_offsets)
  then have "offsets (donor_count r p) (length r) (make_delta_array_to_n (donor_counts r p))"
    by (simp add: offsets_def donor_counts_def)
  with assms show ?thesis by (simp add: csr_setting_def)
qed




subsection \<open>The accumulator only adds\<close>

lemma fold_err_invariant:
  assumes "fold_err f xs st = Inr st'" and "P st"
    and "\<And>x s s'. x \<in> set xs \<Longrightarrow> P s \<Longrightarrow> f x s = Inr s' \<Longrightarrow> P s'"
  shows "P st'"
  using assms
proof (induction xs arbitrary: st)
  case Nil
  then show ?case by simp
next
  case (Cons x xs)
  from Cons.prems(1) obtain s1 where s1: "f x st = Inr s1" and rest: "fold_err f xs s1 = Inr st'"
    by (auto split: sum.splits)
  have "P s1" using Cons.prems(3) [OF _ Cons.prems(2) s1] by simp
  with rest Cons.IH Cons.prems(3) show ?case by auto
qed

lemma add_to_above:
  assumes "add_to a recvr proportion donor = Inr a'" and "0 < proportion"
    and "length a = length lo" and "\<forall>k < length lo. 0 \<le> lo ! k \<and> lo ! k \<le> a ! k"
  shows "length a' = length lo \<and> (\<forall>k < length lo. 0 \<le> lo ! k \<and> lo ! k \<le> a' ! k)"
proof -
  from assms(1) obtain j where j: "np_index (length a) recvr = Some j"
    and d: "donor < length a" and a': "a' = a[j := a ! j + proportion * a ! donor]"
    by (auto simp: add_to_def split: option.splits if_splits)
  from d assms(3,4) have "0 \<le> a ! donor" by force
  with assms(2) have inc: "0 \<le> proportion * a ! donor" by simp
  show ?thesis
  proof (intro conjI allI impI)
    show "length a' = length lo" using a' assms(3) by simp
  next
    fix k assume k: "k < length lo"
    with assms(4) show "0 \<le> lo ! k" by simp
    from k assms(3,4) inc show "lo ! k \<le> a' ! k"
      by (cases "k = j") (auto simp: a' intro: add_increasing2)
  qed
qed

lemma accum_slot_above:
  assumes "accum_slot r p donor v st = Inr st'" and "area_above lo st"
  shows "area_above lo st'"
proof -
  obtain da di where st: "st = (da, di)" by (cases st)
  show ?thesis
  proof (cases "\<exists>recvr proportion. get2 r donor v = Inr recvr \<and> get2 p donor v = Inr proportion
                  \<and> 0 < proportion \<and> int donor \<noteq> recvr")
    case True
    then obtain recvr proportion where g: "get2 r donor v = Inr recvr" "get2 p donor v = Inr proportion"
      "0 < proportion" "int donor \<noteq> recvr" by blast
    with assms(1) st obtain da' di' where a: "add_to da recvr proportion donor = Inr da'"
      and st': "st' = (da', di')"
      by (auto simp: accum_slot_def split: sum.splits)
    from add_to_above [OF a g(3)] assms(2) st st' show ?thesis
      by (simp add: area_above_def)
  next
    case False
    with assms(1) st have "st' = st"
      by (auto simp: accum_slot_def split: sum.splits if_splits)
    with assms(2) show ?thesis by simp
  qed
qed

lemma accum_node_above:
  assumes "accum_node r p s i st = Inr st'" and "area_above lo st"
  shows "area_above lo st'"
proof -
  from assms(1) have f: "fold_err (accum_slot r p (s ! i)) [0..<ncols r] st = Inr st'"
    by (auto simp: accum_node_def split: if_splits)
  show ?thesis
    by (rule fold_err_invariant [where P = "area_above lo", OF f assms(2)]) (rule accum_slot_above)
qed

lemma zero_at_nth:
  "zero_at a ns = Inr a' \<Longrightarrow> length a' = length a \<and> (\<forall>k < length a. a' ! k = (if k \<in> set ns then 0 else a ! k))"
  by (auto simp: zero_at_def split: if_splits)

lemma seed_arrays_area:
  assumes "seed_arrays np node_cell_area runoff boundary_nodes = Inr (a0, q0)"
    and "zeros_plus np node_cell_area = Inr ca"
  shows "length a0 = length ca \<and> (\<forall>k < length ca. a0 ! k =
           (if (\<exists>bn. boundary_nodes = Some bn \<and> k \<in> set bn) then 0 else ca ! k))"
  using assms
  by (auto simp: seed_arrays_def split: sum.splits option.splits dest!: zero_at_nth)

subsection \<open>The traversal: what holds when it returns\<close>

lemma stack_loop_rule_aux:
  assumes run: "stack_loop delta D base up i vt = Some y"
    and step: "\<And>base up i vt up' vt'. I base up i vt \<Longrightarrow> up \<noteq> {}
        \<Longrightarrow> donors_of delta D base = Inr up' \<Longrightarrow> set_times vt (base - up') (i + 1) = Inr vt'
        \<Longrightarrow> I ((base - (base - up')) \<union> up') up' (i + 1) vt'"
  shows "I base up i vt \<longrightarrow> (\<forall>vt'. y = Inr vt' \<longrightarrow> (\<exists>base' i'. I base' {} i' vt'))"
proof -
  have "delta = delta \<and> D = D \<and> I base up i vt
           \<longrightarrow> (\<forall>vt'. y = Inr vt' \<longrightarrow> (\<exists>base' i'. I base' {} i' vt'))"
  proof (rule stack_loop.raw_induct
    [where P = "\<lambda>delta' D' base up i vt y. delta' = delta \<and> D' = D \<and> I base up i vt
        \<longrightarrow> (\<forall>vt'. y = Inr vt' \<longrightarrow> (\<exists>base' i'. I base' {} i' vt'))",
     OF _ run])
  fix loop delta' D' and base up :: "nat set" and i :: int and vt :: "int list" and y
  assume IH: "\<And>a1 a2 a3 a4 a5 a6 y. loop a1 a2 a3 a4 a5 a6 = Some y \<Longrightarrow>
                 a1 = delta \<and> a2 = D \<and> I a3 a4 a5 a6
                 \<longrightarrow> (\<forall>vt'. y = Inr vt' \<longrightarrow> (\<exists>base' i'. I base' {} i' vt'))"
    and eq: "(if up = {} then Some (Inr vt)
      else case donors_of delta' D' base of Inl e \<Rightarrow> Some (Inl e)
           | Inr upstream' \<Rightarrow>
               let visited = base - upstream'
               in case set_times vt visited (i + 1) of
                  Inl e \<Rightarrow> Some (Inl e)
                  | Inr visit_time' \<Rightarrow>
                      loop delta' D' (base - visited \<union> upstream')
                       upstream' (i + 1) visit_time') = Some y"
  show "delta' = delta \<and> D' = D \<and> I base up i vt
          \<longrightarrow> (\<forall>vt'. y = Inr vt' \<longrightarrow> (\<exists>base' i'. I base' {} i' vt'))"
  proof (intro impI allI, elim conjE)
    fix vt'
    assume dD: "delta' = delta" "D' = D" and inv: "I base up i vt" and y: "y = Inr vt'"
    show "\<exists>base' i'. I base' {} i' vt'"
    proof (cases "up = {}")
      case True
      with eq y inv show ?thesis by auto
    next
      case False
      with eq y dD obtain up' vt1 where
        d: "donors_of delta D base = Inr up'" and
        st: "set_times vt (base - up') (i + 1) = Inr vt1" and
        rec: "loop delta D ((base - (base - up')) \<union> up') up' (i + 1) vt1 = Some y"
        by (auto simp: Let_def split: sum.splits)
      from IH [OF rec] step [OF inv False d st] y show ?thesis by simp
    qed
  qed
  qed
  then show ?thesis by simp
qed

lemma stack_loop_rule:
  assumes "stack_loop delta D base up i vt = Some (Inr vt')"
    and "I base up i vt"
    and "\<And>base up i vt up' vt'. I base up i vt \<Longrightarrow> up \<noteq> {}
        \<Longrightarrow> donors_of delta D base = Inr up' \<Longrightarrow> set_times vt (base - up') (i + 1) = Inr vt'
        \<Longrightarrow> I ((base - (base - up')) \<union> up') up' (i + 1) vt'"
  shows "\<exists>base' i'. I base' {} i' vt'"
proof -
  have "I base up i vt
          \<longrightarrow> (\<forall>w. (Inr vt' :: error + int list) = Inr w \<longrightarrow> (\<exists>base' i'. I base' {} i' w))"
  proof (rule stack_loop_rule_aux [OF assms(1)])
    fix base up i vt up' vt'
    assume "I base up i vt" "up \<noteq> {}" "donors_of delta D base = Inr up'"
      "set_times vt (base - up') (i + 1) = Inr vt'"
    then show "I ((base - (base - up')) \<union> up') up' (i + 1) vt'" by (rule assms(3))
  qed
  with assms(2) show ?thesis by blast
qed

lemma donors_of_graph:
  assumes "csr_graph n delta D E" and "base \<subseteq> {0..<n}"
  shows "donors_of delta D base = Inr {u. \<exists>x \<in> base. (u, x) \<in> E}"
proof -
  from assms have "\<not> (\<exists>node_i \<in> base. length delta \<le> Suc node_i)"
    by (auto simp: csr_graph_def)
  moreover have "(\<Union>node_i \<in> base. set (slice D (delta ! node_i) (delta ! Suc node_i)))
      = {u. \<exists>x \<in> base. (u, x) \<in> E}"
  proof -
    have "set (slice D (delta ! x) (delta ! Suc x)) = {u. (u, x) \<in> E}" if "x \<in> base" for x
      using that assms by (auto simp: csr_graph_def)
    then show ?thesis by blast
  qed
  ultimately show ?thesis by (simp add: donors_of_def)
qed

lemma set_times_nth:
  assumes "X \<subseteq> {0..<length vt}"
  shows "\<exists>vt'. set_times vt X i = Inr vt' \<and> length vt' = length vt
           \<and> (\<forall>k < length vt. vt' ! k = (if k \<in> X then i else vt ! k))"
  using assms by (auto simp: set_times_def)

lemma set_times_result:
  assumes "set_times vt X i = Inr vt'"
  shows "length vt' = length vt \<and> (\<forall>k < length vt. vt' ! k = (if k \<in> X then i else vt ! k))"
  using assms by (auto simp: set_times_def split: if_splits)

lemma drains_to_donor: "(u, x) \<in> E \<Longrightarrow> x \<in> drains_to E B \<Longrightarrow> u \<in> drains_to E B"
  by (auto simp: drains_to_def intro: converse_rtrancl_into_rtrancl)

lemma drains_to_base: "b \<in> B \<Longrightarrow> b \<in> drains_to E B"
  by (auto simp: drains_to_def)

lemma traversal_inv_step:
  assumes g: "csr_graph n delta D E"
    and inv: "traversal_inv n E B base up i vt"
    and d: "donors_of delta D base = Inr up'"
    and st: "set_times vt (base - up') (i + 1) = Inr vt'"
  shows "traversal_inv n E B ((base - (base - up')) \<union> up') up' (i + 1) vt'"
proof -
  from inv have sub: "base \<subseteq> up" "up \<subseteq> {0..<n}" and dr: "base \<subseteq> drains_to E B"
    and len: "length vt = n" and i0: "0 \<le> i"
    and bnd: "\<And>v. v < n \<Longrightarrow> vt ! v \<le> i \<and> - 1 \<le> vt ! v"
    and bl: "\<And>v. v < n \<Longrightarrow> v \<in> B \<Longrightarrow> 0 \<le> vt ! v"
    and vis: "\<And>v. v < n \<Longrightarrow> 0 \<le> vt ! v \<Longrightarrow> v \<in> drains_to E B"
    and ord: "\<And>u v. (u, v) \<in> E \<Longrightarrow> u \<noteq> v \<Longrightarrow> 0 \<le> vt ! v \<Longrightarrow> vt ! v < vt ! u \<or> u \<in> base"
    by (auto simp: traversal_inv_def)
  from sub have basen: "base \<subseteq> {0..<n}" by auto
  from donors_of_graph [OF g basen] d have up': "up' = {u. \<exists>x \<in> base. (u, x) \<in> E}" by simp
  from g have En: "\<And>u v. (u, v) \<in> E \<Longrightarrow> u < n \<and> v < n" by (auto simp: csr_graph_def)
  have newbase: "(base - (base - up')) \<union> up' = up'" by auto
  from set_times_result [OF st] len have len': "length vt' = n"
    and nth': "\<And>k. k < n \<Longrightarrow> vt' ! k = (if k \<in> base - up' then i + 1 else vt ! k)" by auto
  have a: "up' \<subseteq> {0..<n}" using up' En by auto
  have b: "up' \<subseteq> drains_to E B" using up' dr by (auto intro: drains_to_donor)
  have c: "\<forall>v < n. vt' ! v \<le> i + 1 \<and> - 1 \<le> vt' ! v"
    using nth' bnd i0 by fastforce
  have e: "\<forall>v < n. v \<in> B \<longrightarrow> 0 \<le> vt' ! v" using nth' bl i0 by auto
  have f: "\<forall>v < n. 0 \<le> vt' ! v \<longrightarrow> v \<in> drains_to E B"
    using nth' vis dr by (auto split: if_splits)
  have h: "\<forall>e \<in> E. fst e \<noteq> snd e \<and> 0 \<le> vt' ! snd e \<longrightarrow> vt' ! snd e < vt' ! fst e \<or> fst e \<in> up'"
  proof (intro ballI impI)
    fix e assume eE: "e \<in> E" and pre: "fst e \<noteq> snd e \<and> 0 \<le> vt' ! snd e"
    obtain u v where e: "e = (u, v)" by (cases e)
    with eE pre have uv: "(u, v) \<in> E" "u \<noteq> v" "0 \<le> vt' ! v" by auto
    from En [OF uv(1)] have un: "u < n" and vn: "v < n" by auto
    have "vt' ! v < vt' ! u \<or> u \<in> up'"
    proof (cases "v \<in> base")
      case True
      with uv(1) up' show ?thesis by auto
    next
      case False
      with nth' [OF vn] have v': "vt' ! v = vt ! v" by simp
      with uv ord have o: "vt ! v < vt ! u \<or> u \<in> base" by auto
      show ?thesis
      proof (cases "u \<in> base - up'")
        case True
        with nth' [OF un] bnd [OF vn] v' show ?thesis by simp
      next
        case False
        with nth' [OF un] o v' show ?thesis by auto
      qed
    qed
    with e show "vt' ! snd e < vt' ! fst e \<or> fst e \<in> up'" by simp
  qed
  show ?thesis
    unfolding traversal_inv_def newbase using a b len' i0 c e f h by simp
qed

lemma traversal_inv_init:
  assumes g: "csr_graph n delta D E" and B: "B \<subseteq> {0..<n}" and t: "terminal E B"
    and d: "donors_of delta D B = Inr up" and st: "set_times (replicate n (- 1)) B 0 = Inr vt"
  shows "traversal_inv n E B (up - B) up 0 vt"
proof -
  from donors_of_graph [OF g B] d have up: "up = {u. \<exists>x \<in> B. (u, x) \<in> E}" by simp
  from g have En: "\<And>u v. (u, v) \<in> E \<Longrightarrow> u < n \<and> v < n" by (auto simp: csr_graph_def)
  from set_times_result [OF st] have len: "length vt = n"
    and nth: "\<And>k. k < n \<Longrightarrow> vt ! k = (if k \<in> B then 0 else - 1)" by auto
  have a: "up \<subseteq> {0..<n}" using up En by auto
  have b: "up - B \<subseteq> drains_to E B"
    using up by (auto intro: drains_to_donor drains_to_base)
  have c: "\<forall>v < n. vt ! v \<le> 0 \<and> - 1 \<le> vt ! v" using nth by simp
  have e: "\<forall>v < n. v \<in> B \<longrightarrow> 0 \<le> vt ! v" using nth by simp
  have f: "\<forall>v < n. 0 \<le> vt ! v \<longrightarrow> v \<in> drains_to E B"
    using nth by (auto intro: drains_to_base split: if_splits)
  have h: "\<forall>e \<in> E. fst e \<noteq> snd e \<and> 0 \<le> vt ! snd e \<longrightarrow> vt ! snd e < vt ! fst e \<or> fst e \<in> up - B"
  proof (intro ballI impI)
    fix e assume eE: "e \<in> E" and pre: "fst e \<noteq> snd e \<and> 0 \<le> vt ! snd e"
    from En [of "fst e" "snd e"] eE have vn: "snd e < n" by simp
    with pre nth have vB: "snd e \<in> B" by (auto split: if_splits)
    with eE have "fst e \<in> up" using up by force
    moreover from t eE pre have "fst e \<notin> B" by (auto simp: terminal_def)
    ultimately show "vt ! snd e < vt ! fst e \<or> fst e \<in> up - B" by simp
  qed
  show ?thesis
    unfolding traversal_inv_def using a b len c e f h by simp
qed

text \<open>The visit times, when the traversal returns.\<close>

lemma visit_times_correct:
  assumes g: "csr_graph n delta D E" and B: "set l \<subseteq> {0..<n}" and t: "terminal E (set l)"
    and run: "visit_times delta D l = Some (Inr vt)"
  shows "length vt = n
    \<and> (\<forall>v < n. (0 \<le> vt ! v \<longleftrightarrow> v \<in> drains_to E (set l)) \<and> (v \<notin> drains_to E (set l) \<longrightarrow> vt ! v = - 1))
    \<and> (\<forall>e \<in> E. fst e \<noteq> snd e \<and> snd e \<in> drains_to E (set l) \<longrightarrow> vt ! snd e < vt ! fst e)"
proof -
  let ?B = "set l"
  from g have ld: "length delta = Suc n" and En: "\<And>u v. (u, v) \<in> E \<Longrightarrow> u < n \<and> v < n"
    by (auto simp: csr_graph_def)
  from run ld obtain up vt0 where d: "donors_of delta D ?B = Inr up"
    and st: "set_times (replicate n (- 1)) ?B 0 = Inr vt0"
    and loop: "stack_loop delta D (up - ?B) up 0 vt0 = Some (Inr vt)"
    by (auto simp: visit_times_def Let_def split: if_splits sum.splits)
  note init = traversal_inv_init [OF g B t d st]
  have "\<exists>base' i'. traversal_inv n E ?B base' {} i' vt"
    by (rule stack_loop_rule [where I = "traversal_inv n E ?B", OF loop init])
       (rule traversal_inv_step [OF g])
  then obtain base' i' where fin: "traversal_inv n E ?B base' {} i' vt" by blast
  then have len: "length vt = n"
    and lo: "\<And>v. v < n \<Longrightarrow> - 1 \<le> vt ! v"
    and bl: "\<And>v. v < n \<Longrightarrow> v \<in> ?B \<Longrightarrow> 0 \<le> vt ! v"
    and vis: "\<And>v. v < n \<Longrightarrow> 0 \<le> vt ! v \<Longrightarrow> v \<in> drains_to E ?B"
    and ord: "\<And>u v. (u, v) \<in> E \<Longrightarrow> u \<noteq> v \<Longrightarrow> 0 \<le> vt ! v \<Longrightarrow> vt ! v < vt ! u"
    by (auto simp: traversal_inv_def)
  have reach: "0 \<le> vt ! v" if "v \<in> drains_to E ?B" for v
  proof -
    from that obtain b where b: "b \<in> ?B" and path: "(v, b) \<in> E\<^sup>*" by (auto simp: drains_to_def)
    from path show ?thesis
    proof (induction rule: converse_rtrancl_induct)
      case base
      from b B bl show ?case by auto
    next
      case (step y z)
      show ?case
      proof (cases "y = z")
        case True
        with step show ?thesis by simp
      next
        case False
        from ord [OF step(1) False step(3)] step(3) show ?thesis by simp
      qed
    qed
  qed
  have p2: "\<forall>v < n. (0 \<le> vt ! v \<longleftrightarrow> v \<in> drains_to E ?B) \<and> (v \<notin> drains_to E ?B \<longrightarrow> vt ! v = - 1)"
  proof (intro allI impI conjI)
    fix v assume v: "v < n"
    show "0 \<le> vt ! v \<longleftrightarrow> v \<in> drains_to E ?B" using vis [OF v] reach by blast
    assume "v \<notin> drains_to E ?B"
    with vis [OF v] lo [OF v] show "vt ! v = - 1" by fastforce
  qed
  have p3: "\<forall>e \<in> E. fst e \<noteq> snd e \<and> snd e \<in> drains_to E ?B \<longrightarrow> vt ! snd e < vt ! fst e"
    using ord reach by auto
  from len p2 p3 show ?thesis by blast
qed

text \<open>Along a path of donors the visit time grows, strictly unless the path is empty.\<close>

lemma visit_times_path:
  assumes ord: "\<forall>e \<in> E. fst e \<noteq> snd e \<and> snd e \<in> drains_to E B \<longrightarrow> vt ! snd e < vt ! fst e"
    and path: "(u, v) \<in> E\<^sup>*" and v: "v \<in> drains_to E B"
  shows "vt ! v \<le> vt ! u \<and> (u \<noteq> v \<longrightarrow> vt ! v < (vt ! u :: int))"
  using path v
proof (induction rule: converse_rtrancl_induct)
  case base
  then show ?case by simp
next
  case (step y z)
  from step(2,4) have zd: "z \<in> drains_to E B"
    by (auto simp: drains_to_def intro: rtrancl_trans)
  from step have IH: "vt ! v \<le> vt ! z" "z \<noteq> v \<longrightarrow> vt ! v < vt ! z" by auto
  show ?case
  proof (cases "y = z")
    case True
    with IH show ?thesis by simp
  next
    case False
    with ord step(1) zd have "vt ! z < vt ! y" by force
    with IH show ?thesis by simp
  qed
qed

subsection \<open>The traversal: when it returns\<close>

lemma argsort_is_argsort: "is_argsort a (argsort a)"
  by (simp add: is_argsort_def argsort_def sorted_sort_key)

lemma is_argsort_positions:
  assumes "is_argsort a s" and "i < length s" and "j < length s"
    and "a ! (s ! i) < a ! (s ! j)"
  shows "i < j"
proof (rule ccontr)
  assume "\<not> i < j"
  then have "j \<le> i" by simp
  moreover from assms(1) have "sorted (map (\<lambda>k. a ! k) s)" by (simp add: is_argsort_def)
  ultimately have "map (\<lambda>k. a ! k) s ! j \<le> map (\<lambda>k. a ! k) s ! i"
    using assms(2) by (simp add: sorted_iff_nth_mono)
  with assms show False by simp
qed

text \<open>The nodes upstream of a set, in a graph.\<close>

lemma upstream_shrinks:
  assumes fin: "finite G" and ac: "acyclic G" and ne: "X \<noteq> {}"
  shows "{u. \<exists>x \<in> {y. \<exists>x \<in> X. (y, x) \<in> G}. (u, x) \<in> G\<^sup>*} \<subset> {u. \<exists>x \<in> X. (u, x) \<in> G\<^sup>*}"
proof -
  have wf: "wf ((G\<^sup>+)\<inverse>)"
  proof -
    from fin ac have "wf (G\<inverse>)" by (simp add: finite_acyclic_wf_converse)
    then have "wf ((G\<inverse>)\<^sup>+)" by (rule wf_trancl)
    then show ?thesis by (simp add: trancl_converse)
  qed
  from ne obtain x0 where "x0 \<in> X" by auto
  from wfE_min [OF wf this] obtain z where z: "z \<in> X" and min: "\<And>y. (y, z) \<in> (G\<^sup>+)\<inverse> \<Longrightarrow> y \<notin> X"
    by blast
  have "z \<in> {u. \<exists>x \<in> X. (u, x) \<in> G\<^sup>*}" using z by auto
  moreover have "z \<notin> {u. \<exists>x \<in> {y. \<exists>x \<in> X. (y, x) \<in> G}. (u, x) \<in> G\<^sup>*}"
  proof
    assume "z \<in> {u. \<exists>x \<in> {y. \<exists>x \<in> X. (y, x) \<in> G}. (u, x) \<in> G\<^sup>*}"
    then obtain y x where "(z, y) \<in> G\<^sup>*" "(y, x) \<in> G" "x \<in> X" by auto
    then have "(z, x) \<in> G\<^sup>+" "x \<in> X" by auto
    with min [of x] show False by simp
  qed
  moreover have "{u. \<exists>x \<in> {y. \<exists>x \<in> X. (y, x) \<in> G}. (u, x) \<in> G\<^sup>*} \<subseteq> {u. \<exists>x \<in> X. (u, x) \<in> G\<^sup>*}"
    by (auto intro: rtrancl_into_rtrancl)
  ultimately show ?thesis by blast
qed

lemma stack_loop_returns:
  assumes g: "csr_graph n delta D E" and t: "terminal E B"
    and ac: "acyclic (without_base_loops E B)"
  shows "m = 2 * card (upstream_of (without_base_loops E B) base) + (if up = base then 0 else 1)
    \<Longrightarrow> base \<subseteq> up \<Longrightarrow> up \<subseteq> {0..<n} \<Longrightarrow> base \<inter> B = {} \<Longrightarrow> length vt = n
    \<Longrightarrow> \<exists>vt'. stack_loop delta D base up i vt = Some (Inr vt')"
proof (induction m arbitrary: base up i vt rule: less_induct)
  case (less m)
  let ?G = "without_base_loops E B"
  from g have En: "E \<subseteq> {0..<n} \<times> {0..<n}" by (simp add: csr_graph_def)
  have GE: "?G \<subseteq> E" by (auto simp: without_base_loops_def)
  with En have finG: "finite ?G" by (meson finite_SigmaI finite_atLeastLessThan finite_subset)
  show ?case
  proof (cases "up = {}")
    case True
    then show ?thesis by (subst stack_loop.simps) simp
  next
    case False
    define up' where "up' = {u. \<exists>x \<in> base. (u, x) \<in> E}"
    from less.prems have basen: "base \<subseteq> {0..<n}" by auto
    from donors_of_graph [OF g basen] have d: "donors_of delta D base = Inr up'"
      by (simp add: up'_def)
    have upG: "up' = {u. \<exists>x \<in> base. (u, x) \<in> ?G}"
      using less.prems(4) by (auto simp: up'_def without_base_loops_def)
    have up'n: "up' \<subseteq> {0..<n}" using En by (auto simp: up'_def)
    have up'B: "up' \<inter> B = {}"
    proof (rule ccontr)
      assume "up' \<inter> B \<noteq> {}"
      then obtain u x where "u \<in> B" "x \<in> base" "(u, x) \<in> E" by (auto simp: up'_def)
      with t have "x \<in> B" "x \<in> base" by (auto simp: terminal_def)
      with less.prems(4) show False by auto
    qed
    have "base - up' \<subseteq> {0..<length vt}" using basen less.prems(5) by auto
    from set_times_nth [OF this, of "i + 1"] obtain vt1 where
      st: "set_times vt (base - up') (i + 1) = Inr vt1" and len1: "length vt1 = n"
      using less.prems(5) by auto
    have newbase: "(base - (base - up')) \<union> up' = up'" by auto
    have finU: "finite (upstream_of ?G base)"
    proof (rule finite_subset)
      show "upstream_of ?G base \<subseteq> {0..<n}"
      proof
        fix u assume "u \<in> upstream_of ?G base"
        then obtain x where x: "x \<in> base" "(u, x) \<in> ?G\<^sup>*" by (auto simp: upstream_of_def)
        from x(2) show "u \<in> {0..<n}"
        proof (cases rule: converse_rtranclE)
          case base
          with x(1) basen show ?thesis by auto
        next
          case (step y)
          with GE En show ?thesis by auto
        qed
      qed
    qed simp
    have dec: "2 * card (upstream_of ?G up') + (if up' = up' then 0 else 1) < m"
    proof (cases "base = {}")
      case True
      then have "up' = {}" by (simp add: up'_def)
      with True False less.prems(1) show ?thesis by (auto simp: upstream_of_def)
    next
      case ne: False
      from upstream_shrinks [OF finG ac ne] have "upstream_of ?G up' \<subset> upstream_of ?G base"
        by (simp add: upstream_of_def upG)
      from psubset_card_mono [OF finU this] less.prems(1) show ?thesis by simp
    qed
    have "\<exists>vt'. stack_loop delta D up' up' (i + 1) vt1 = Some (Inr vt')"
      by (rule less.IH [OF dec refl _ up'n up'B len1]) simp
    then show ?thesis
      by (subst stack_loop.simps) (simp add: False d st newbase Let_def)
  qed
qed

lemma traversal_returns:
  assumes g: "csr_graph n delta D E" and B: "set l \<subseteq> {0..<n}" and t: "terminal E (set l)"
    and ac: "acyclic (without_base_loops E (set l))"
  shows "\<exists>vt. visit_times delta D l = Some (Inr vt)"
proof -
  from g have ld: "length delta = Suc n" and En: "E \<subseteq> {0..<n} \<times> {0..<n}"
    by (auto simp: csr_graph_def)
  define up where "up = {u. \<exists>x \<in> set l. (u, x) \<in> E}"
  from donors_of_graph [OF g B] have d: "donors_of delta D (set l) = Inr up" by (simp add: up_def)
  have "set l \<subseteq> {0..<length (replicate n (- 1 :: int))}" using B by simp
  from set_times_nth [OF this, of 0] obtain vt0 where
    st: "set_times (replicate n (- 1)) (set l) 0 = Inr vt0" and len0: "length vt0 = n" by auto
  have upn: "up \<subseteq> {0..<n}" using En by (auto simp: up_def)
  have "\<exists>vt. stack_loop delta D (up - set l) up 0 vt0 = Some (Inr vt)"
    by (rule stack_loop_returns [OF g t ac refl _ upn _ len0]) auto
  with d st ld show ?thesis by (auto simp: visit_times_def Let_def)
qed

subsection \<open>From the tables to the donor graph\<close>

lemma make_ordered_visit_times:
  "node_visit_times r p = Some (Inr vt) \<Longrightarrow> make_ordered_node_array_to_n r p = Some (Inr (argsort vt))"
  by (auto simp: node_visit_times_def make_ordered_node_array_to_n_def construct__stack_def
           split: sum.splits)

lemma edge_list_nodes:
  assumes "e \<in> set (edge_list r p)"
  shows "fst e < length r"
proof -
  from assms obtain v i where "(v, i) \<in> set (loop_pairs (ncols r) (length r))" "fst e = i"
    by (auto simp: edge_list_def slot_edges_def)
  then show ?thesis by (simp add: loop_pairs_mem)
qed

lemma edges_in_range:
  assumes "in_range r p"
  shows "edges r p \<subseteq> {0..<length r} \<times> {0..<length r}"
proof
  fix uv assume "uv \<in> edges r p"
  then obtain e where e: "e \<in> set (edge_list r p)" and uv: "uv = (fst e, nat (snd e))"
    by (auto simp: edges_def)
  from assms e have "0 \<le> snd e" "snd e < int (length r)" by (auto simp: in_range_def)
  with edge_list_nodes [OF e] uv show "uv \<in> {0..<length r} \<times> {0..<length r}" by auto
qed

lemma donor_list_edges:
  assumes "in_range r p"
  shows "set (donor_list r p x) = {u. (u, x) \<in> edges r p}"
proof (intro equalityI subsetI)
  fix u assume "u \<in> set (donor_list r p x)"
  then obtain e where "e \<in> set (edge_list r p)" "snd e = int x" "fst e = u"
    by (auto simp: donor_list_def donors_in_def)
  then show "u \<in> {u. (u, x) \<in> edges r p}" by (force simp: edges_def)
next
  fix u assume "u \<in> {u. (u, x) \<in> edges r p}"
  then obtain e where e: "e \<in> set (edge_list r p)" and ux: "u = fst e" "x = nat (snd e)"
    by (auto simp: edges_def)
  from assms e have "0 \<le> snd e" by (auto simp: in_range_def)
  with ux have "snd e = int x" by simp
  with e ux show "u \<in> set (donor_list r p x)" by (auto simp: donor_list_def donors_in_def)
qed

lemma baselevel_nodes_set:
  "baselevel_nodes r = Inr l \<Longrightarrow> set l = baselevel r"
  by (auto simp: baselevel_nodes_def baselevel_def split: if_splits)

text \<open>When the donor-count stage returns the donor counts, the arrays handed to the
  traversal list the donors of every node.\<close>

lemma donor_graph_exact:
  assumes tr: "table (length r) (ncols r) r" and tp: "table (length r) (ncols r) p"
    and rng: "in_range r p"
    and nd: "make_number_of_donors_array_to_n r p = Inr (donor_counts r p)"
  shows "\<exists>delta D l. donor_graph r p = Inr (delta, D, l) \<and> set l = baselevel r
           \<and> csr_graph (length r) delta D (edges r p)"
proof -
  let ?delta = "make_delta_array_to_n (donor_counts r p)"
  have "concat r \<noteq> []"
  proof
    assume "concat r = []"
    with nd show False by (simp add: make_number_of_donors_array_to_n_def amax_def)
  qed
  then obtain row where "row \<in> set r" "row \<noteq> []" by auto
  then have row: "row \<in> set r" "length row \<noteq> 0" by simp_all
  with tr have "length row = ncols r" by (simp add: table_def)
  with row have "r \<noteq> []" "ncols r \<noteq> 0" by auto
  then obtain l where l: "baselevel_nodes r = Inr l" by (auto simp: baselevel_nodes_def)
  note setting = donor_counts_setting [OF tr tp rng]
  from donors_loop_inv [OF setting] obtain w D hist where
    run: "donors_loop r p ?delta = Inr (w, D, hist)"
    and inv: "donors_inv r p ?delta (loop_pairs (ncols r) (length r)) (w, D, hist)"
    by (metis prod_cases3)
  from run have D: "make_array_of_donors_to_n r p ?delta = Inr D"
    by (simp add: make_array_of_donors_to_n_def)
  have dg: "donor_graph r p = Inr (?delta, D, l)"
    using l nd D by (simp add: donor_graph_def)
  have "csr_graph (length r) ?delta D (edges r p)"
    unfolding csr_graph_def
  proof (intro conjI allI impI)
    show "length ?delta = Suc (length r)" by (simp add: length_make_delta donor_counts_def)
    show "edges r p \<subseteq> {0..<length r} \<times> {0..<length r}" by (rule edges_in_range [OF rng])
  next
    fix x assume "x < length r"
    from donors_inv_slices [OF setting inv this] donor_list_edges [OF rng, of x]
    show "set (slice D (?delta ! x) (?delta ! Suc x)) = {u. (u, x) \<in> edges r p}" by simp
  qed
  with dg baselevel_nodes_set [OF l] show ?thesis by blast
qed

lemma acyclic_descending: "(\<forall>e \<in> G. snd e < (fst e :: nat)) \<Longrightarrow> acyclic G"
  by (rule acyclicI_order [where f = "\<lambda>x. x"]) auto

lemma trancl_distinct_ends:
  "(u, v) \<in> E\<^sup>+ \<Longrightarrow> (u, v) \<in> E\<^sup>*"
  by (rule trancl_into_rtrancl)

lemma baselevel_bound: "baselevel r \<subseteq> {0..<length r}"
  by (auto simp: baselevel_def)

lemma node_visit_times_exact:
  assumes tr: "table (length r) (ncols r) r" and tp: "table (length r) (ncols r) p"
    and rng: "in_range r p"
    and nd: "make_number_of_donors_array_to_n r p = Inr (donor_counts r p)"
    and t: "terminal (edges r p) (baselevel r)"
    and ac: "acyclic (without_base_loops (edges r p) (baselevel r))"
  shows "\<exists>vt. node_visit_times r p = Some (Inr vt) \<and> length vt = length r
    \<and> (\<forall>v < length r. (0 \<le> vt ! v \<longleftrightarrow> v \<in> drains_to (edges r p) (baselevel r))
          \<and> (v \<notin> drains_to (edges r p) (baselevel r) \<longrightarrow> vt ! v = - 1))
    \<and> (\<forall>e \<in> edges r p. fst e \<noteq> snd e \<and> snd e \<in> drains_to (edges r p) (baselevel r)
          \<longrightarrow> vt ! snd e < vt ! fst e)"
proof -
  from donor_graph_exact [OF tr tp rng nd] obtain delta D l where
    dg: "donor_graph r p = Inr (delta, D, l)" and l: "set l = baselevel r"
    and g: "csr_graph (length r) delta D (edges r p)" by blast
  have B: "set l \<subseteq> {0..<length r}" unfolding l by (rule baselevel_bound)
  from t l have t': "terminal (edges r p) (set l)" by simp
  from ac l have ac': "acyclic (without_base_loops (edges r p) (set l))" by simp
  from traversal_returns [OF g B t' ac'] obtain vt where
    run: "visit_times delta D l = Some (Inr vt)" by blast
  have nv: "node_visit_times r p = Some (Inr vt)"
    using dg run by (simp add: node_visit_times_def)
  note vc = visit_times_correct [OF g B t' run, unfolded l]
  show ?thesis by (rule exI [of _ vt], rule conjI [OF nv vc])
qed

lemma chain_valid:
  "table (length r_chain) (ncols r_chain) r_chain \<and> table (length r_chain) (ncols r_chain) p_chain
   \<and> in_range r_chain p_chain
   \<and> make_number_of_donors_array_to_n r_chain p_chain = Inr (donor_counts r_chain p_chain)
   \<and> terminal (edges r_chain p_chain) (baselevel r_chain)
   \<and> acyclic (without_base_loops (edges r_chain p_chain) (baselevel r_chain))"
proof -
  have 0: "table (length r_chain) (ncols r_chain) r_chain"
    by (simp add: table_def r_chain_def ncols_def)
  have 1: "table (length r_chain) (ncols r_chain) p_chain"
    by (simp add: table_def r_chain_def p_chain_def ncols_def)
  have 2: "in_range r_chain p_chain" by code_simp
  have 3: "make_number_of_donors_array_to_n r_chain p_chain = Inr (donor_counts r_chain p_chain)"
    by code_simp
  have 4: "terminal (edges r_chain p_chain) (baselevel r_chain)" by code_simp
  have "\<forall>e \<in> without_base_loops (edges r_chain p_chain) (baselevel r_chain). snd e < fst e"
    by code_simp
  then have 5: "acyclic (without_base_loops (edges r_chain p_chain) (baselevel r_chain))"
    by (rule acyclic_descending)
  show ?thesis by (intro conjI 0 1 2 3 4 5)
qed

lemma chain_order: "make_ordered_node_array_to_n r_chain p_chain = Some (Inr [0, 1, 2])"
  by code_simp

subsection \<open>A network on which the traversal does not return\<close>

lemma leak_graph: "donor_graph r_leak p_leak = Inr ([0, 2, 3, 4], [0, 1, 2, 2], [0, 2])"
  by code_simp

lemma leak_donors_2: "donors_of [0, 2, 3, 4] [0, 1, 2, 2] {2} = Inr {2}"
  by code_simp

lemma leak_first_round:
  "visit_times [0, 2, 3, 4] [0, 1, 2, 2] [0, 2]
     = stack_loop [0, 2, 3, 4] [0, 1, 2, 2] {2} {2} 1 [0, 1, 0]"
proof -
  have a: "donors_of [0, 2, 3, 4] [0, 1, 2, 2] (set [0, 2]) = Inr {0, 1, 2}" by code_simp
  have b: "set_times (replicate (length [0, 2, 3, 4::nat] - 1) (- 1)) (set [0, 2]) 0 = Inr [0, - 1, 0]"
    by code_simp
  have c: "{0, 1, 2} - set [0, 2::nat] = {1}" by code_simp
  have d: "donors_of [0, 2, 3, 4] [0, 1, 2, 2] {1} = Inr {2}" by code_simp
  have e: "set_times [0, - 1, 0] ({1} - {2}) 1 = Inr [0, 1, 0]" by code_simp
  have f: "{1} - ({1} - {2}) \<union> {2} = {2::nat}" by code_simp
  have "visit_times [0, 2, 3, 4] [0, 1, 2, 2] [0, 2]
          = stack_loop [0, 2, 3, 4] [0, 1, 2, 2] {1} {0, 1, 2} 0 [0, - 1, 0]"
    by (simp only: visit_times_def Let_def a b c sum.case list.distinct if_False)
  also have "\<dots> = stack_loop [0, 2, 3, 4] [0, 1, 2, 2] {2} {2} 1 [0, 1, 0]"
    by (subst stack_loop.simps) (simp only: d e f Let_def sum.case insert_not_empty if_False add_0)
  finally show ?thesis .
qed


lemma leak_loop_diverges_aux:
  assumes run: "stack_loop delta D base up i vt = Some y"
  shows "\<not> (delta = [0, 2, 3, 4] \<and> D = [0, 1, 2, 2] \<and> base = {2} \<and> up = {2})"
proof (rule stack_loop.raw_induct
    [where P = "\<lambda>delta D base up i vt y.
        \<not> (delta = [0, 2, 3, 4] \<and> D = [0, 1, 2, 2] \<and> base = {2} \<and> up = {2})",
     OF _ run])
  fix loop delta D and base up :: "nat set" and i :: int and vt :: "int list" and y
  assume IH: "\<And>a1 a2 a3 a4 a5 a6 y. loop a1 a2 a3 a4 a5 a6 = Some y \<Longrightarrow>
                \<not> (a1 = [0, 2, 3, 4] \<and> a2 = [0, 1, 2, 2] \<and> a3 = {2} \<and> a4 = {2})"
    and eq: "(if up = {} then Some (Inr vt)
      else case donors_of delta D base of Inl e \<Rightarrow> Some (Inl e)
           | Inr upstream' \<Rightarrow>
               let visited = base - upstream'
               in case set_times vt visited (i + 1) of
                  Inl e \<Rightarrow> Some (Inl e)
                  | Inr visit_time' \<Rightarrow>
                      loop delta D (base - visited \<union> upstream')
                       upstream' (i + 1) visit_time') = Some y"
  show "\<not> (delta = [0, 2, 3, 4] \<and> D = [0, 1, 2, 2] \<and> base = {2} \<and> up = {2})"
  proof
    assume st: "delta = [0, 2, 3, 4] \<and> D = [0, 1, 2, 2] \<and> base = {2} \<and> up = {2}"
    have s: "set_times vt ({2} - {2}) (i + 1)
               = Inr (map (\<lambda>k. if k \<in> {2} - {2} then i + 1 else vt ! k) [0..<length vt])"
      by (simp add: set_times_def)
    have f: "{2} - ({2} - {2}) \<union> {2} = {2::nat}" by auto
    from eq st have "loop [0, 2, 3, 4] [0, 1, 2, 2] {2} {2} (i + 1)
        (map (\<lambda>k. if k \<in> {2} - {2} then i + 1 else vt ! k) [0..<length vt]) = Some y"
      by (simp only: leak_donors_2 s f Let_def sum.case insert_not_empty if_False)
    from IH [OF this] show False by simp
  qed
qed

lemma leak_loop_diverges: "stack_loop [0, 2, 3, 4] [0, 1, 2, 2] {2} {2} i vt = None"
proof (cases "stack_loop [0, 2, 3, 4] [0, 1, 2, 2] {2} {2} i vt")
  case None
  then show ?thesis .
next
  case (Some y)
  from leak_loop_diverges_aux [OF this] show ?thesis by simp
qed

lemma leak_never_returns: "make_ordered_node_array_to_n r_leak p_leak = None"
  by (simp only: make_ordered_node_array_to_n_def leak_graph construct__stack_def
        leak_first_round leak_loop_diverges sum.case prod.case option.case)

lemma leak_valid:
  "table (length r_leak) (ncols r_leak) r_leak \<and> table (length r_leak) (ncols r_leak) p_leak
   \<and> in_range r_leak p_leak
   \<and> make_number_of_donors_array_to_n r_leak p_leak = Inr (donor_counts r_leak p_leak)
   \<and> acyclic (without_base_loops (edges r_leak p_leak) (baselevel r_leak))"
proof -
  have 0: "table (length r_leak) (ncols r_leak) r_leak"
    by (simp add: table_def r_leak_def ncols_def)
  have 1: "table (length r_leak) (ncols r_leak) p_leak"
    by (simp add: table_def r_leak_def p_leak_def ncols_def)
  have 2: "in_range r_leak p_leak" by code_simp
  have 3: "make_number_of_donors_array_to_n r_leak p_leak = Inr (donor_counts r_leak p_leak)"
    by code_simp
  have "\<forall>e \<in> without_base_loops (edges r_leak p_leak) (baselevel r_leak). snd e < fst e"
    by code_simp
  then have 5: "acyclic (without_base_loops (edges r_leak p_leak) (baselevel r_leak))"
    by (rule acyclic_descending)
  show ?thesis by (intro conjI 0 1 2 3 5)
qed

subsection \<open>More small networks, evaluated\<close>

lemma sink_facts:
  "table (length r_sink) (ncols r_sink) r_sink \<and> table (length r_sink) (ncols r_sink) p_sink
   \<and> in_range r_sink p_sink
   \<and> acyclic (without_base_loops (edges r_sink p_sink) (baselevel r_sink))
   \<and> (0, 1) \<in> edges r_sink p_sink
   \<and> make_ordered_node_array_to_n r_sink p_sink = Some (Inr [0, 1])"
proof -
  have 0: "table (length r_sink) (ncols r_sink) r_sink"
    by (simp add: table_def r_sink_def ncols_def)
  have 1: "table (length r_sink) (ncols r_sink) p_sink"
    by (simp add: table_def r_sink_def p_sink_def ncols_def)
  have 2: "in_range r_sink p_sink" by code_simp
  have "\<forall>e \<in> without_base_loops (edges r_sink p_sink) (baselevel r_sink). fst e < snd e \<and> snd e < 2"
    by code_simp
  then have 3: "acyclic (without_base_loops (edges r_sink p_sink) (baselevel r_sink))"
    by (intro acyclicI_order [where f = "\<lambda>x. 2 - x"]) force
  have 4: "(0, 1) \<in> edges r_sink p_sink" by code_simp
  have 5: "make_ordered_node_array_to_n r_sink p_sink = Some (Inr [0, 1])" by code_simp
  show ?thesis by (intro conjI 0 1 2 3 4 5)
qed

lemma two_facts:
  "table (length r_two) (ncols r_two) r_two \<and> table (length r_two) (ncols r_two) p_two
   \<and> in_range r_two p_two
   \<and> acyclic (without_base_loops (edges r_two p_two) (baselevel r_two))
   \<and> (0, 1) \<in> edges r_two p_two \<and> baselevel r_two = {0, 1}
   \<and> make_ordered_node_array_to_n r_two p_two = Some (Inr [0, 1])"
proof -
  have 0: "table (length r_two) (ncols r_two) r_two"
    by (simp add: table_def r_two_def ncols_def)
  have 1: "table (length r_two) (ncols r_two) p_two"
    by (simp add: table_def r_two_def p_two_def ncols_def)
  have 2: "in_range r_two p_two" by code_simp
  have "\<forall>e \<in> without_base_loops (edges r_two p_two) (baselevel r_two). fst e < snd e \<and> snd e < 2"
    by code_simp
  then have 3: "acyclic (without_base_loops (edges r_two p_two) (baselevel r_two))"
    by (intro acyclicI_order [where f = "\<lambda>x. 2 - x"]) force
  have 4: "(0, 1) \<in> edges r_two p_two" by code_simp
  have 5: "baselevel r_two = {0, 1}" by code_simp
  have 6: "make_ordered_node_array_to_n r_two p_two = Some (Inr [0, 1])" by code_simp
  show ?thesis by (intro conjI 0 1 2 3 4 5 6)
qed

lemma inert_facts:
  "baselevel_nodes r_inert = Inr [1] \<and> edge_list r_inert p_inert = [(2, 0)]
   \<and> donor_counts r_inert p_inert = [1, 0, 0]
   \<and> make_number_of_donors_array_to_n r_inert p_inert = Inr [1, 1, 0]
   \<and> node_visit_times r_inert p_inert = Some (Inr [1, 0, 2])
   \<and> make_ordered_node_array_to_n r_inert p_inert = Some (Inr [1, 0, 2])"
proof -
  have 0: "baselevel_nodes r_inert = Inr [1]" by code_simp
  have 1: "edge_list r_inert p_inert = [(2, 0)]" by code_simp
  have 2: "donor_counts r_inert p_inert = [1, 0, 0]" by code_simp
  have 3: "make_number_of_donors_array_to_n r_inert p_inert = Inr [1, 1, 0]" by code_simp
  have 4: "node_visit_times r_inert p_inert = Some (Inr [1, 0, 2])" by code_simp
  have 5: "make_ordered_node_array_to_n r_inert p_inert = Some (Inr [1, 0, 2])" by code_simp
  show ?thesis by (intro conjI 0 1 2 3 4 5)
qed

lemma inert_unreachable:
  "0 \<notin> drains_to (edges r_inert p_inert) (baselevel r_inert)
   \<and> 2 \<notin> drains_to (edges r_inert p_inert) (baselevel r_inert)"
proof -
  have E: "edges r_inert p_inert = {(2, 0)}" by code_simp
  have B: "baselevel r_inert = {1}" by code_simp
  have "x = 1" if "(x, 1) \<in> {(2, 0 :: nat)}\<^sup>*" for x :: nat
    using that by (induction rule: converse_rtrancl_induct) auto
  then show ?thesis unfolding E B drains_to_def by fastforce
qed

lemma chain_path: "(2, 0) \<in> (edges r_chain p_chain)\<^sup>+ \<and> 0 \<in> drains_to (edges r_chain p_chain) (baselevel r_chain)"
proof -
  have "(2, 1) \<in> edges r_chain p_chain" "(1, 0) \<in> edges r_chain p_chain" by code_simp+
  then have "(2, 0) \<in> (edges r_chain p_chain)\<^sup>+" by (meson trancl.simps)
  moreover have "0 \<in> baselevel r_chain" by code_simp
  ultimately show ?thesis by (simp add: drains_to_base)
qed

subsection \<open>Conservation of area\<close>

lemma fold_err_append:
  "fold_err f (xs @ ys) st = (case fold_err f xs st of Inl e \<Rightarrow> Inl e | Inr st' \<Rightarrow> fold_err f ys st')"
  by (induction xs arbitrary: st) (auto split: sum.splits)

lemma retained_insert:
  assumes "d < length a" and "d \<notin> S"
  shows "retained B (insert d S) a = (if d \<in> B then retained B S a else retained B S a - a ! d)"
proof -
  let ?A = "{0..<length a}"
  let ?f = "\<lambda>S v. if v \<in> S \<and> v \<notin> B then 0 else a ! v"
  from assms(1) have d: "d \<in> ?A" by simp
  have rest: "sum (?f (insert d S)) (?A - {d}) = sum (?f S) (?A - {d})"
    by (rule sum.cong) auto
  have "retained B (insert d S) a = ?f (insert d S) d + sum (?f (insert d S)) (?A - {d})"
    unfolding retained_def by (rule sum.remove [OF _ d]) simp
  moreover have "retained B S a = ?f S d + sum (?f S) (?A - {d})"
    unfolding retained_def by (rule sum.remove [OF _ d]) simp
  ultimately show ?thesis using rest assms(2) by simp
qed

lemma retained_update:
  assumes "x < length a" and "\<not> (x \<in> S \<and> x \<notin> B)"
  shows "retained B S (a[x := a ! x + c]) = retained B S a + c"
proof -
  let ?A = "{0..<length a}"
  let ?f = "\<lambda>a v. if v \<in> S \<and> v \<notin> B then 0 else a ! v"
  from assms(1) have x: "x \<in> ?A" by simp
  have rest: "sum (?f (a[x := a ! x + c])) (?A - {x}) = sum (?f a) (?A - {x})"
    by (rule sum.cong) auto
  have "retained B S (a[x := a ! x + c]) = ?f (a[x := a ! x + c]) x + sum (?f (a[x := a ! x + c])) (?A - {x})"
    unfolding retained_def length_list_update by (rule sum.remove [OF _ x]) simp
  moreover have "retained B S a = ?f a x + sum (?f a) (?A - {x})"
    unfolding retained_def by (rule sum.remove [OF _ x]) simp
  ultimately show ?thesis using rest assms by simp
qed

lemma retained_empty: "retained B {} a = sum_list a"
  by (simp add: retained_def sum_list_sum_nth)

lemma retained_all:
  assumes "B \<subseteq> {0..<length a}"
  shows "retained B {0..<length a} a = (\<Sum>b \<in> B. a ! b)"
proof -
  have "retained B {0..<length a} a = (\<Sum>v = 0..<length a. if v \<in> B then a ! v else 0)"
    unfolding retained_def by (rule sum.cong) auto
  also have "\<dots> = (\<Sum>v \<in> {0..<length a} \<inter> B. a ! v)"
    by (simp add: sum.inter_restrict)
  also have "{0..<length a} \<inter> B = B" using assms by auto
  finally show ?thesis .
qed

lemma positive_sum_take_Suc:
  "m < length row \<Longrightarrow> positive_sum (take (Suc m) row)
     = positive_sum (take m row) + (if 0 < row ! m then row ! m else 0)"
  by (simp add: positive_sum_def take_Suc_conv_app_nth)

lemma slot_receiver:
  assumes rng: "in_range r p" and i: "i < length r" and v: "v < ncols r" and pos: "0 < p ! i ! v"
  shows "0 \<le> r ! i ! v \<and> r ! i ! v < int (length r) \<and> (i, nat (r ! i ! v)) \<in> edges r p"
proof -
  from i v have "(v, i) \<in> set (loop_pairs (ncols r) (length r))" by (simp add: loop_pairs_mem)
  with pos have e: "(i, r ! i ! v) \<in> set (edge_list r p)"
    by (force simp: edge_list_def slot_edges_def)
  with rng have "0 \<le> r ! i ! v" "r ! i ! v < int (length r)" by (auto simp: in_range_def)
  moreover from e have "(i, nat (r ! i ! v)) \<in> edges r p" by (force simp: edges_def)
  ultimately show ?thesis by simp
qed

text \<open>A base-level node that sends no flow elsewhere passes nothing on.\<close>

lemma accum_slot_base:
  assumes tr: "table (length r) (ncols r) r" and tp: "table (length r) (ncols r) p"
    and rng: "in_range r p" and t: "terminal (edges r p) B" and dB: "d \<in> B"
    and d: "d < length r" and v: "v < ncols r"
  shows "accum_slot r p d v st = Inr st"
proof -
  obtain da di where st: "st = (da, di)" by (cases st)
  note g = table_get2 [OF tr d v] table_get2 [OF tp d v]
  show ?thesis
  proof (cases "0 < p ! d ! v")
    case True
    from slot_receiver [OF rng d v True] t dB have "nat (r ! d ! v) = d" "0 \<le> r ! d ! v"
      by (auto simp: terminal_def)
    then have "int d = r ! d ! v" by simp
    with g True st show ?thesis by (simp add: accum_slot_def)
  next
    case False
    with g st show ?thesis by (simp add: accum_slot_def)
  qed
qed

lemma accum_node_base:
  assumes tr: "table (length r) (ncols r) r" and tp: "table (length r) (ncols r) p"
    and rng: "in_range r p" and t: "terminal (edges r p) B" and dB: "d \<in> B"
    and d: "d < length r"
  shows "m \<le> ncols r \<Longrightarrow> fold_err (accum_slot r p d) [0..<m] st = Inr st"
proof (induction m)
  case 0
  then show ?case by simp
next
  case (Suc m)
  then have "m < ncols r" by simp
  from accum_slot_base [OF tr tp rng t dB d this] Suc show ?case
    by (simp add: fold_err_append)
qed

text \<open>Any other node passes on its area in the proportions of its slots.\<close>

lemma accum_slot_pass:
  assumes tr: "table (length r) (ncols r) r" and tp: "table (length r) (ncols r) p"
    and rng: "in_range r p" and noloop: "(d, d) \<notin> edges r p"
    and d: "d < length r" and v: "v < ncols r"
    and len: "length da = length r" "length di = length r"
  shows "accum_slot r p d v (da, di) =
     Inr (if 0 < p ! d ! v
          then (da[nat (r ! d ! v) := da ! nat (r ! d ! v) + p ! d ! v * da ! d],
                di[nat (r ! d ! v) := di ! nat (r ! d ! v) + p ! d ! v * di ! d])
          else (da, di))"
proof -
  note g = table_get2 [OF tr d v] table_get2 [OF tp d v]
  show ?thesis
  proof (cases "0 < p ! d ! v")
    case True
    from slot_receiver [OF rng d v True] have x: "0 \<le> r ! d ! v" "r ! d ! v < int (length r)"
      and e: "(d, nat (r ! d ! v)) \<in> edges r p" by auto
    from e noloop have "nat (r ! d ! v) \<noteq> d" by auto
    with x have ne: "int d \<noteq> r ! d ! v" by auto
    from x have idx: "np_index (length r) (r ! d ! v) = Some (nat (r ! d ! v))"
      by (simp add: np_index_nat)
    from g True ne idx d len show ?thesis by (simp add: accum_slot_def add_to_def)
  next
    case False
    with g show ?thesis by (simp add: accum_slot_def)
  qed
qed

lemma accum_node_pass:
  assumes tr: "table (length r) (ncols r) r" and tp: "table (length r) (ncols r) p"
    and rng: "in_range r p" and noloop: "(d, d) \<notin> edges r p"
    and d: "d < length r"
    and len: "length da = length r" "length di = length r"
    and kept: "\<And>x. (d, x) \<in> edges r p \<Longrightarrow> \<not> (x \<in> S \<and> x \<notin> B)"
  shows "m \<le> ncols r \<Longrightarrow>
    \<exists>da' di'. fold_err (accum_slot r p d) [0..<m] (da, di) = Inr (da', di')
       \<and> length da' = length r \<and> length di' = length r \<and> da' ! d = da ! d
       \<and> retained B S da' = retained B S da + positive_sum (take m (p ! d)) * da ! d"
proof (induction m)
  case 0
  then show ?case by (simp add: len positive_sum_def)
next
  case (Suc m)
  then have m: "m < ncols r" by simp
  with Suc obtain da1 di1 where
    run: "fold_err (accum_slot r p d) [0..<m] (da, di) = Inr (da1, di1)"
    and l1: "length da1 = length r" "length di1 = length r" and same: "da1 ! d = da ! d"
    and ret: "retained B S da1 = retained B S da + positive_sum (take m (p ! d)) * da ! d"
    by auto
  from tp d m have lrow: "m < length (p ! d)" by (auto simp: table_def)
  note slot = accum_slot_pass [OF tr tp rng noloop d m l1]
  show ?case
  proof (cases "0 < p ! d ! m")
    case True
    let ?x = "nat (r ! d ! m)"
    from slot_receiver [OF rng d m True] have xn: "?x < length r" and e: "(d, ?x) \<in> edges r p"
      by auto
    from e noloop have xd: "?x \<noteq> d" by auto
    let ?da' = "da1[?x := da1 ! ?x + p ! d ! m * da1 ! d]"
    let ?di' = "di1[?x := di1 ! ?x + p ! d ! m * di1 ! d]"
    have "fold_err (accum_slot r p d) [0..<Suc m] (da, di) = Inr (?da', ?di')"
      using run slot True by (simp add: fold_err_append)
    moreover have "?da' ! d = da ! d" using xd same by simp
    moreover have "retained B S ?da' = retained B S da + positive_sum (take (Suc m) (p ! d)) * da ! d"
      using retained_update [of ?x da1 S B "p ! d ! m * da1 ! d"] xn l1 kept [OF e] ret same True
      by (simp add: positive_sum_take_Suc [OF lrow] algebra_simps)
    ultimately show ?thesis using l1 by simp
  next
    case False
    have "fold_err (accum_slot r p d) [0..<Suc m] (da, di) = Inr (da1, di1)"
      using run slot False by (simp add: fold_err_append)
    with l1 same ret False show ?thesis
      by (simp add: positive_sum_take_Suc [OF lrow])
  qed
qed

lemma downstream_first_perm:
  assumes "downstream_first E n s"
  shows "length s = n \<and> distinct s \<and> set s = {0..<n}"
proof -
  from assms have m: "mset s = mset [0..<n]" by (simp add: downstream_first_def)
  then have "length s = n" by (metis mset_eq_length length_upt diff_zero)
  moreover from m have "distinct s" by (metis distinct_upt mset_eq_imp_distinct_iff)
  moreover from m have "set s = {0..<n}" by (metis mset_eq_setD set_upt)
  ultimately show ?thesis by simp
qed

lemma accum_loop_conserves:
  assumes tr: "table (length r) (ncols r) r" and tp: "table (length r) (ncols r) p"
    and rng: "in_range r p" and t: "terminal (edges r p) B"
    and noloop: "\<And>d. d \<notin> B \<Longrightarrow> (d, d) \<notin> edges r p"
    and rows: "\<forall>row \<in> set p. positive_sum row = 1"
    and topo: "downstream_first (edges r p) (length r) s"
  shows "k \<le> length r \<Longrightarrow> length da = length r \<Longrightarrow> length di = length r \<Longrightarrow>
    \<exists>da' di'. fold_err (accum_node r p s) (rev [0..<k]) (da, di) = Inr (da', di')
       \<and> length da' = length r
       \<and> retained B ((\<lambda>j. s ! j) ` {0..<length r}) da' = retained B ((\<lambda>j. s ! j) ` {k..<length r}) da"
proof (induction k arbitrary: da di)
  case 0
  have "fold_err (accum_node r p s) (rev [0..<0]) (da, di) = Inr (da, di)" by simp
  with 0 show ?case by blast
next
  case (Suc k)
  let ?N = "length r"
  let ?d = "s ! k"
  let ?S' = "(\<lambda>j. s ! j) ` {Suc k..<?N}"
  let ?S = "(\<lambda>j. s ! j) ` {k..<?N}"
  from Suc.prems have k: "k < ?N" by simp
  from downstream_first_perm [OF topo] have ls: "length s = ?N" and ds: "distinct s"
    and ss: "set s = {0..<?N}" by auto
  from topo have topo': "\<And>i j. i < ?N \<Longrightarrow> j < ?N \<Longrightarrow> (s ! j, s ! i) \<in> edges r p
      \<Longrightarrow> s ! j \<noteq> s ! i \<Longrightarrow> i < j"
    unfolding downstream_first_def by blast
  have inj: "a = b" if "a < ?N" "b < ?N" "s ! a = s ! b" for a b
    using that ds ls by (simp add: nth_eq_iff_index_eq)
  from k ls have "?d \<in> set s" by simp
  with ss have d: "?d < ?N" by simp
  have S: "?S = insert ?d ?S'"
  proof -
    from k have "{k..<?N} = insert k {Suc k..<?N}" by auto
    then show ?thesis by simp
  qed
  have dS': "?d \<notin> ?S'"
  proof
    assume "?d \<in> ?S'"
    then obtain j where j: "Suc k \<le> j" "j < ?N" "s ! j = s ! k" by auto
    with k inj [of j k] have "j = k" by simp
    with j show False by simp
  qed
  have node: "accum_node r p s k st = fold_err (accum_slot r p ?d) [0..<ncols r] st" for st
    using k ls by (simp add: accum_node_def)
  have step: "\<exists>da1 di1. accum_node r p s k (da, di) = Inr (da1, di1) \<and> length da1 = ?N
      \<and> length di1 = ?N \<and> retained B ?S da1 = retained B ?S' da"
  proof (cases "?d \<in> B")
    case True
    from accum_node_base [OF tr tp rng t True d, of "ncols r" "(da, di)"]
    have "accum_node r p s k (da, di) = Inr (da, di)" by (simp add: node)
    moreover have "retained B ?S da = retained B ?S' da"
      using retained_insert [of ?d da ?S' B] d dS' True Suc.prems by (simp add: S)
    ultimately show ?thesis using Suc.prems by simp
  next
    case False
    have kept: "\<not> (x \<in> ?S \<and> x \<notin> B)" if e: "(?d, x) \<in> edges r p" for x
    proof -
      from e noloop [OF False] have xd: "x \<noteq> ?d" by auto
      from e edges_in_range [OF rng] have "x < ?N" by auto
      with ss have "x \<in> set s" by simp
      then obtain j where j: "j < ?N" "s ! j = x" unfolding in_set_conv_nth ls by blast
      from topo' [OF j(1) k] e xd j(2) have jk: "j < k" by simp
      have "x \<notin> ?S"
      proof
        assume "x \<in> ?S"
        then obtain j' where j': "k \<le> j'" "j' < ?N" "s ! j' = x" by auto
        with j inj [of j' j] have "j' = j" by simp
        with jk j' show False by simp
      qed
      then show ?thesis by simp
    qed
    from accum_node_pass [OF tr tp rng noloop [OF False] d Suc.prems(2,3) kept, of "ncols r"]
    obtain da1 di1 where run: "fold_err (accum_slot r p ?d) [0..<ncols r] (da, di) = Inr (da1, di1)"
      and l1: "length da1 = ?N" "length di1 = ?N"
      and ret: "retained B ?S da1 = retained B ?S da + positive_sum (take (ncols r) (p ! ?d)) * da ! ?d"
      by auto
    from tp d have "p ! ?d \<in> set p" "length (p ! ?d) = ncols r" by (auto simp: table_def)
    with rows have "positive_sum (take (ncols r) (p ! ?d)) = 1" by simp
    moreover have "retained B ?S da = retained B ?S' da - da ! ?d"
      using retained_insert [of ?d da ?S' B] d dS' False Suc.prems by (simp add: S)
    ultimately have "retained B ?S da1 = retained B ?S' da" using ret by simp
    with run l1 show ?thesis by (simp add: node)
  qed
  then obtain da1 di1 where run1: "accum_node r p s k (da, di) = Inr (da1, di1)"
    and l1: "length da1 = ?N" "length di1 = ?N" and ret1: "retained B ?S da1 = retained B ?S' da"
    by blast
  from Suc.IH [OF _ l1] k obtain da' di' where
    "fold_err (accum_node r p s) (rev [0..<k]) (da1, di1) = Inr (da', di')"
    "length da' = ?N" "retained B ((\<lambda>j. s ! j) ` {0..<?N}) da' = retained B ?S da1" by auto
  with run1 ret1 show ?case by simp
qed

subsection \<open>Monotone accumulation\<close>

text \<open>
  Claim C8. Let \<open>ca\<close> be the array \<open>numpy.zeros(np) + node_cell_area\<close> of seeded cell
  areas, all of them non-negative. Whenever \<open>find_drainage_area_and_discharge_to_n\<close>
  returns, the drainage area it returns has the length of \<open>ca\<close> and, at every node \<open>v\<close>
  that is not listed in \<open>boundary_nodes\<close>, is at least \<open>ca[v]\<close>.
\<close>

theorem area_at_least_seed:
  assumes run: "find_drainage_area_and_discharge_to_n s r p node_cell_area runoff boundary_nodes = Inr (a, q)"
    and ca: "zeros_plus (length r) node_cell_area = Inr ca"
    and nonneg: "\<forall>c \<in> set ca. 0 \<le> c"
    and v: "v < length ca"
    and nb: "\<forall>bn. boundary_nodes = Some bn \<longrightarrow> v \<notin> set bn"
  shows "length a = length ca \<and> ca ! v \<le> a ! v"
proof -
  from run obtain a0 q0 where seed: "seed_arrays (length r) node_cell_area runoff boundary_nodes = Inr (a0, q0)"
    and loop: "fold_err (accum_node r p s) (rev [0..<length r]) (a0, q0) = Inr (a, q)"
    by (auto simp: find_drainage_area_and_discharge_to_n_def Let_def split: sum.splits)
  note s0 = seed_arrays_area [OF seed ca]
  have init: "area_above a0 (a0, q0)"
    using s0 nonneg by (auto simp: area_above_def)
  have "area_above a0 (a, q)"
    by (rule fold_err_invariant [where P = "area_above a0", OF loop init]) (rule accum_node_above)
  then have len: "length a = length a0" and ge: "a0 ! v \<le> a ! v"
    using s0 v by (auto simp: area_above_def)
  from s0 v nb have "a0 ! v = ca ! v" by auto
  with len ge s0 show ?thesis by simp
qed

theorem area_at_least_seed_witness:
  "find_drainage_area_and_discharge_to_n [4, 5, 1, 7, 2, 6, 0, 8, 3, 9] r_ref p_ref
     (Scalar 1) (Scalar 1) None = Inr (area_ref, area_ref)
   \<and> zeros_plus (length r_ref) (Scalar 1) = Inr (replicate 10 1)
   \<and> length area_ref = length (replicate 10 (1::rat))
   \<and> replicate 10 (1::rat) ! 5 \<le> area_ref ! 5"
proof -
  have ca: "zeros_plus (length r_ref) (Scalar 1) = Inr (replicate 10 1)" by code_simp
  show ?thesis
    using area_at_least_seed [OF ref_area_given_order ca, of 5] ref_area_given_order ca by simp
qed

subsection \<open>In-bounds donor-list construction\<close>



subsection \<open>Downstream before upstream\<close>

text \<open>
  Claim C1, as stated, fails on the code. On \<open>r_sink\<close> (node 0 drains to node 1, which
  drains nowhere) both nodes keep the visit time -1 and the order is \<open>[0, 1]\<close>: the
  donor 0 precedes its receiver 1. On \<open>r_two\<close> (two base-level nodes, node 0 also
  draining to node 1) both have visit time 0 and the order is again \<open>[0, 1]\<close>. Both
  inputs have equal shapes, receivers in range and no cycle.
\<close>

theorem downstream_before_upstream_counterexample:
  "(table (length r_sink) (ncols r_sink) r_sink \<and> table (length r_sink) (ncols r_sink) p_sink
    \<and> in_range r_sink p_sink
    \<and> acyclic (without_base_loops (edges r_sink p_sink) (baselevel r_sink))
    \<and> (0, 1) \<in> edges r_sink p_sink
    \<and> make_ordered_node_array_to_n r_sink p_sink = Some (Inr [0, 1]))
   \<and> (table (length r_two) (ncols r_two) r_two \<and> table (length r_two) (ncols r_two) p_two
    \<and> in_range r_two p_two
    \<and> acyclic (without_base_loops (edges r_two p_two) (baselevel r_two))
    \<and> (0, 1) \<in> edges r_two p_two \<and> baselevel r_two = {0, 1}
    \<and> make_ordered_node_array_to_n r_two p_two = Some (Inr [0, 1]))
   \<and> [0, 1 :: nat] ! 0 = 0 \<and> [0, 1 :: nat] ! 1 = 1 \<and> \<not> (1 :: nat) < 0"
proof -
  have a: "[0, 1 :: nat] ! 0 = 0 \<and> [0, 1 :: nat] ! 1 = 1 \<and> \<not> (1 :: nat) < 0" by simp
  show ?thesis by (rule conjI [OF sink_facts conjI [OF two_facts a]])
qed

text \<open>
  Claim C1, amended. Let the tables have equal shape with receivers of positive
  proportion in range, let the donor-count stage return the donor counts, let no
  base-level node send flow to another node, and let the graph of positive-proportion
  edges be acyclic apart from the self-loops of base-level nodes. Then
  \<open>make_ordered_node_array_to_n\<close> returns the argsort of its visit times, and in every
  argsort of them (whatever the order of ties) every node \<open>v\<close> that drains to a
  base-level node stands strictly before every node \<open>u \<noteq> v\<close> that is a donor of \<open>v\<close>,
  directly or transitively.
\<close>

theorem downstream_before_upstream:
  assumes tr: "table (length r) (ncols r) r" and tp: "table (length r) (ncols r) p"
    and rng: "in_range r p"
    and nd: "make_number_of_donors_array_to_n r p = Inr (donor_counts r p)"
    and t: "terminal (edges r p) (baselevel r)"
    and ac: "acyclic (without_base_loops (edges r p) (baselevel r))"
  shows "\<exists>vt. node_visit_times r p = Some (Inr vt)
    \<and> make_ordered_node_array_to_n r p = Some (Inr (argsort vt))
    \<and> (\<forall>s. is_argsort vt s \<longrightarrow>
         (\<forall>u v i j. (u, v) \<in> (edges r p)\<^sup>+ \<and> u \<noteq> v \<and> v \<in> drains_to (edges r p) (baselevel r)
            \<and> i < length s \<and> j < length s \<and> s ! i = v \<and> s ! j = u \<longrightarrow> i < j))"
proof -
  from node_visit_times_exact [OF assms] obtain vt where
    run: "node_visit_times r p = Some (Inr vt)"
    and ord: "\<forall>e \<in> edges r p. fst e \<noteq> snd e \<and> snd e \<in> drains_to (edges r p) (baselevel r)
          \<longrightarrow> vt ! snd e < vt ! fst e" by blast
  have "i < j" if s: "is_argsort vt s" and path: "(u, v) \<in> (edges r p)\<^sup>+" and ne: "u \<noteq> v"
    and dr: "v \<in> drains_to (edges r p) (baselevel r)"
    and ij: "i < length s" "j < length s" "s ! i = v" "s ! j = u" for s u v i j
  proof -
    from visit_times_path [OF ord trancl_into_rtrancl [OF path] dr] ne have "vt ! v < vt ! u" by simp
    with ij have "vt ! (s ! i) < vt ! (s ! j)" by simp
    from is_argsort_positions [OF s ij(1,2) this] show ?thesis .
  qed
  with run make_ordered_visit_times [OF run] show ?thesis by blast
qed

theorem downstream_before_upstream_witness:
  "table (length r_chain) (ncols r_chain) r_chain \<and> table (length r_chain) (ncols r_chain) p_chain
   \<and> in_range r_chain p_chain
   \<and> make_number_of_donors_array_to_n r_chain p_chain = Inr (donor_counts r_chain p_chain)
   \<and> terminal (edges r_chain p_chain) (baselevel r_chain)
   \<and> acyclic (without_base_loops (edges r_chain p_chain) (baselevel r_chain))
   \<and> make_ordered_node_array_to_n r_chain p_chain = Some (Inr [0, 1, 2])
   \<and> (2, 0) \<in> (edges r_chain p_chain)\<^sup>+
   \<and> [0, 1, 2 :: nat] ! 0 = 0 \<and> [0, 1, 2 :: nat] ! 2 = 2 \<and> (0 :: nat) < 2"
proof -
  note v = chain_valid
  from downstream_before_upstream [of r_chain p_chain] v obtain vt where
    run: "make_ordered_node_array_to_n r_chain p_chain = Some (Inr (argsort vt))"
    and ord: "\<And>s u v i j. is_argsort vt s \<Longrightarrow> (u, v) \<in> (edges r_chain p_chain)\<^sup>+ \<Longrightarrow> u \<noteq> v
        \<Longrightarrow> v \<in> drains_to (edges r_chain p_chain) (baselevel r_chain)
        \<Longrightarrow> i < length s \<Longrightarrow> j < length s \<Longrightarrow> s ! i = v \<Longrightarrow> s ! j = u \<Longrightarrow> i < j"
    by blast
  from run chain_order have s: "argsort vt = [0, 1, 2]" by simp
  from ord [OF argsort_is_argsort, of 2 0 0 2] chain_path have "(0 :: nat) < 2" by (simp add: s)
  then have a: "[0, 1, 2 :: nat] ! 0 = 0 \<and> [0, 1, 2 :: nat] ! 2 = 2 \<and> (0 :: nat) < 2" by simp
  from v chain_order conjunct1 [OF chain_path] a show ?thesis by blast
qed

subsection \<open>Termination of the traversal\<close>

text \<open>
  Claim C7, as stated, fails on the code. \<open>r_leak\<close> has equal shapes, receivers in
  range and exact donor counts, and its positive-proportion edges \<open>1 \<rightarrow> 0\<close>, \<open>2 \<rightarrow> 1\<close>
  and the self-loops of the base-level nodes 0 and 2 have no cycle apart from those
  self-loops; yet the \<open>while\<close> loop never ends: node 2 enters the frontier as the donor
  of node 1 and, being its own donor, stays in it.
\<close>

theorem traversal_terminates_counterexample:
  "table (length r_leak) (ncols r_leak) r_leak \<and> table (length r_leak) (ncols r_leak) p_leak
   \<and> in_range r_leak p_leak
   \<and> make_number_of_donors_array_to_n r_leak p_leak = Inr (donor_counts r_leak p_leak)
   \<and> acyclic (without_base_loops (edges r_leak p_leak) (baselevel r_leak))
   \<and> make_ordered_node_array_to_n r_leak p_leak = None"
  using leak_valid leak_never_returns by blast

text \<open>
  Claim C7, amended. If the tables have equal shape with receivers of positive
  proportion in range, the donor-count stage returns the donor counts, the graph of
  positive-proportion edges is acyclic apart from the self-loops of base-level nodes,
  and no base-level node sends flow to another node, then the \<open>while\<close> loop ends and
  \<open>make_ordered_node_array_to_n\<close> returns an order.
\<close>

theorem traversal_terminates:
  assumes tr: "table (length r) (ncols r) r" and tp: "table (length r) (ncols r) p"
    and rng: "in_range r p"
    and nd: "make_number_of_donors_array_to_n r p = Inr (donor_counts r p)"
    and t: "terminal (edges r p) (baselevel r)"
    and ac: "acyclic (without_base_loops (edges r p) (baselevel r))"
  shows "\<exists>s. make_ordered_node_array_to_n r p = Some (Inr s)"
proof -
  from node_visit_times_exact [OF assms] obtain vt where "node_visit_times r p = Some (Inr vt)"
    by blast
  from make_ordered_visit_times [OF this] show ?thesis by blast
qed

theorem traversal_terminates_witness:
  "table (length r_chain) (ncols r_chain) r_chain \<and> table (length r_chain) (ncols r_chain) p_chain
   \<and> in_range r_chain p_chain
   \<and> make_number_of_donors_array_to_n r_chain p_chain = Inr (donor_counts r_chain p_chain)
   \<and> terminal (edges r_chain p_chain) (baselevel r_chain)
   \<and> acyclic (without_base_loops (edges r_chain p_chain) (baselevel r_chain))
   \<and> (\<exists>s. make_ordered_node_array_to_n r_chain p_chain = Some (Inr s))"
  using traversal_terminates [of r_chain p_chain] chain_valid by blast

subsection \<open>Unreachable nodes\<close>

text \<open>
  Claim C9, on the code. In \<open>r_inert\<close> the only edge of positive proportion is
  \<open>2 \<rightarrow> 0\<close> and the only base-level node is 1, so nodes 0 and 2 have no path down to a
  base-level node. The donor-count stage returns \<open>[1, 1, 0]\<close> where the donor counts are
  \<open>[1, 0, 0]\<close>, the visit times are \<open>[1, 0, 2]\<close> and the order is \<open>[1, 0, 2]\<close>: the
  unreachable nodes do not keep -1 and stand after the base-level node.
\<close>

theorem unreachable_nodes_after_base_level:
  "baselevel_nodes r_inert = Inr [1] \<and> edge_list r_inert p_inert = [(2, 0)]
   \<and> 0 \<notin> drains_to (edges r_inert p_inert) (baselevel r_inert)
   \<and> 2 \<notin> drains_to (edges r_inert p_inert) (baselevel r_inert)
   \<and> donor_counts r_inert p_inert = [1, 0, 0]
   \<and> make_number_of_donors_array_to_n r_inert p_inert = Inr [1, 1, 0]
   \<and> node_visit_times r_inert p_inert = Some (Inr [1, 0, 2])
   \<and> make_ordered_node_array_to_n r_inert p_inert = Some (Inr [1, 0, 2])"
  using inert_facts inert_unreachable by blast


end
